theory Spec2Isabelle
  imports Complex_Main "HOL-Library.Sublist" "HOL-Library.AList"
begin

section \<open>JavaScript strings\<close>

text \<open>
  A JavaScript string is modelled as a \<^typ>\<open>string\<close>: a list of code units, each in the
  range U+0000..U+00FF (the 8-bit \<^typ>\<open>char\<close> read as Latin-1). The string methods the
  two modules use (\<^verbatim>\<open>toLowerCase\<close>, \<^verbatim>\<open>trim\<close>, \<^verbatim>\<open>startsWith\<close>, \<^verbatim>\<open>includes\<close>,
  \<^verbatim>\<open>split(" ")\<close>, \<^verbatim>\<open>replace\<close> with the regular expression of
  \<^verbatim>\<open>normalizeComparableText\<close>) are modelled on that range.
\<close>

definition toLowerCaseChar :: "char \<Rightarrow> char" where
  \<comment> \<open>\<^verbatim>\<open>A-Z\<close> and the Latin-1 capitals U+00C0..U+00DE (without the multiplication sign
      U+00D7) have their lower case 32 code units higher; every other code unit is kept.\<close>
  "toLowerCaseChar c =
     (let n = (of_char c :: nat)
      in if (65 \<le> n \<and> n \<le> 90) \<or> (192 \<le> n \<and> n \<le> 222 \<and> n \<noteq> 215)
         then char_of (n + 32) else c)"

definition toLowerCase :: "string \<Rightarrow> string" where
  "toLowerCase s = map toLowerCaseChar s"

definition isWhiteSpace :: "char \<Rightarrow> bool" where
  \<comment> \<open>What \<^verbatim>\<open>trim\<close> and the class \<^verbatim>\<open>\s\<close> remove: TAB, LF, VT, FF, CR, SP and NBSP.\<close>
  "isWhiteSpace c = (of_char c \<in> {9, 10, 11, 12, 13, 32, 160 :: nat})"

definition trim :: "string \<Rightarrow> string" where
  "trim s = rev (dropWhile isWhiteSpace (rev (dropWhile isWhiteSpace s)))"

definition startsWith :: "string \<Rightarrow> string \<Rightarrow> bool" where
  \<comment> \<open>\<^verbatim>\<open>s.startsWith(p)\<close>\<close>
  "startsWith s p = prefix p s"

fun includesStr :: "string \<Rightarrow> string \<Rightarrow> bool" where
  \<comment> \<open>\<^verbatim>\<open>s.includes(p)\<close>: \<open>p\<close> occurs in \<open>s\<close> at some position.\<close>
  "includesStr [] p = (p = [])"
| "includesStr (c # cs) p = (prefix p (c # cs) \<or> includesStr cs p)"

fun splitSpace :: "string \<Rightarrow> string list" where
  \<comment> \<open>\<^verbatim>\<open>s.split(" ")\<close>: the pieces between single spaces, empty pieces included.\<close>
  "splitSpace [] = [[]]"
| "splitSpace (c # cs) =
     (if c = CHR '' '' then [] # splitSpace cs
      else (case splitSpace cs of [] \<Rightarrow> [[c]] | w # ws \<Rightarrow> (c # w) # ws))"

definition filterBoolean :: "string list \<Rightarrow> string list" where
  \<comment> \<open>\<^verbatim>\<open>.filter(Boolean)\<close> on strings: the empty string is the only falsy one.\<close>
  "filterBoolean xs = filter (\<lambda>x. x \<noteq> []) xs"

definition isLowerAlnum :: "char \<Rightarrow> bool" where
  \<comment> \<open>The character class \<^verbatim>\<open>[a-z0-9]\<close>.\<close>
  "isLowerAlnum c =
     (let n = (of_char c :: nat) in (97 \<le> n \<and> n \<le> 122) \<or> (48 \<le> n \<and> n \<le> 57))"

function replaceNonAlnumRuns :: "string \<Rightarrow> string" where
  \<comment> \<open>\<^verbatim>\<open>s.replace(/[^a-z0-9]+/g, " ")\<close>: every maximal run of characters outside the class
      becomes one space.\<close>
  "replaceNonAlnumRuns [] = []"
| "replaceNonAlnumRuns (c # cs) =
     (if isLowerAlnum c then c # replaceNonAlnumRuns cs
      else CHR '' '' # replaceNonAlnumRuns (dropWhile (\<lambda>d. \<not> isLowerAlnum d) cs))"
  by pat_completeness auto
termination
  by (relation "measure length") (auto simp: length_dropWhile_le less_Suc_eq_le)

section \<open>Title matcher\<close>

definition normalizeComparableText :: "string \<Rightarrow> string" where
  "normalizeComparableText v = trim (replaceNonAlnumRuns (toLowerCase v))"

definition tokenFound :: "string list \<Rightarrow> string \<Rightarrow> bool" where
  \<comment> \<open>\<^verbatim>\<open>titleTokens.some(...)\<close> for one label token.\<close>
  "tokenFound titleTokens labelToken =
     list_ex (\<lambda>titleToken. startsWith titleToken labelToken \<or> startsWith labelToken titleToken)
       titleTokens"

fun countMatched :: "string list \<Rightarrow> string list \<Rightarrow> nat \<Rightarrow> nat" where
  \<comment> \<open>The \<^verbatim>\<open>for\<close> loop over the label tokens, with the counter \<^verbatim>\<open>matched\<close>.\<close>
  "countMatched [] titleTokens matched = matched"
| "countMatched (labelToken # rest) titleTokens matched =
     countMatched rest titleTokens
       (if tokenFound titleTokens labelToken then matched + 1 else matched)"

text \<open>
  \<^verbatim>\<open>ratio = matched / labelTokens.length\<close> is a division of two integers below \<open>2^53\<close> in
  double precision, compared with the literals 0.9, 0.75 and 0.6. Rounding to nearest is
  monotone and a literal is the rounding of its decimal value, so a quotient at or above
  9/10 (3/4, 3/5) compares as such; a quotient below differs from the threshold by at least
  \<open>1 / (10 * length)\<close>, far more than one unit in the last place for any string a JavaScript
  engine can hold, and compares as below. The model therefore decides the three
  comparisons on the exact quotient, a \<^typ>\<open>rat\<close>.
\<close>

definition scoreTitleMatch :: "string \<Rightarrow> string \<Rightarrow> int" where
  "scoreTitleMatch labelNorm titleNorm =
     (if labelNorm = [] \<or> titleNorm = [] then 0
      else if titleNorm = labelNorm then 120
      else if startsWith titleNorm labelNorm then 110
      else if startsWith labelNorm titleNorm then 95
      else if includesStr titleNorm labelNorm then 85
      else
        (let labelTokens = filterBoolean (splitSpace labelNorm);
             titleTokens = filterBoolean (splitSpace titleNorm)
         in if labelTokens = [] \<or> titleTokens = [] then 0
            else
              (let matched = countMatched labelTokens titleTokens 0;
                   ratio = (of_nat matched / of_nat (length labelTokens) :: rat)
               in if ratio \<ge> 9 / 10 then 78
                  else if ratio \<ge> 3 / 4 then 72
                  else if ratio \<ge> 3 / 5 then 68
                  else 0)))"

definition titleMatchScore :: "string \<Rightarrow> string \<Rightarrow> int" where
  \<comment> \<open>The score of a raw label against a raw title, as both call sites compute it:
      \<^verbatim>\<open>scoreTitleMatch(normalizeComparableText(label), normalizeComparableText(row.title || ""))\<close>.\<close>
  "titleMatchScore label title =
     scoreTitleMatch (normalizeComparableText label) (normalizeComparableText title)"

subsection \<open>The scoring tiers as the specification words them\<close>

text \<open>
  The normalization, worded on its own: \<^emph>\<open>lowercased\<close> (a capital letter becomes its small
  letter, by the table of the letters of the code-unit range), \<^emph>\<open>every run of
  non-alphanumeric characters collapsed to a single space\<close> (the string is cut into its
  maximal runs of alphanumeric and of other characters, and each run of the second kind is
  replaced by one space), \<^emph>\<open>trimmed\<close> (the spaces at both ends are removed). The tokens of a
  normalized string are its maximal runs of characters other than the space.
\<close>

definition lowercase_spec :: "char \<Rightarrow> char" where
  "lowercase_spec c =
     (case map_of (zip (''ABCDEFGHIJKLMNOPQRSTUVWXYZ''
                         @ [CHR 0xC0, CHR 0xC1, CHR 0xC2, CHR 0xC3, CHR 0xC4, CHR 0xC5, CHR 0xC6, CHR 0xC7,
                            CHR 0xC8, CHR 0xC9, CHR 0xCA, CHR 0xCB, CHR 0xCC, CHR 0xCD, CHR 0xCE, CHR 0xCF,
                            CHR 0xD0, CHR 0xD1, CHR 0xD2, CHR 0xD3, CHR 0xD4, CHR 0xD5, CHR 0xD6,
                            CHR 0xD8, CHR 0xD9, CHR 0xDA, CHR 0xDB, CHR 0xDC, CHR 0xDD, CHR 0xDE])
                       (''abcdefghijklmnopqrstuvwxyz''
                         @ [CHR 0xE0, CHR 0xE1, CHR 0xE2, CHR 0xE3, CHR 0xE4, CHR 0xE5, CHR 0xE6, CHR 0xE7,
                            CHR 0xE8, CHR 0xE9, CHR 0xEA, CHR 0xEB, CHR 0xEC, CHR 0xED, CHR 0xEE, CHR 0xEF,
                            CHR 0xF0, CHR 0xF1, CHR 0xF2, CHR 0xF3, CHR 0xF4, CHR 0xF5, CHR 0xF6,
                            CHR 0xF8, CHR 0xF9, CHR 0xFA, CHR 0xFB, CHR 0xFC, CHR 0xFD, CHR 0xFE])) c of
        None \<Rightarrow> c
      | Some l \<Rightarrow> l)"

definition alphanumeric_spec :: "char \<Rightarrow> bool" where
  \<comment> \<open>A small letter or a digit: after the lowercasing no capital is left.\<close>
  "alphanumeric_spec c = (c \<in> set ''abcdefghijklmnopqrstuvwxyz0123456789'')"

function runs_spec :: "('a \<Rightarrow> bool) \<Rightarrow> 'a list \<Rightarrow> 'a list list" where
  \<comment> \<open>The maximal runs of consecutive elements that agree on \<open>P\<close>, in order.\<close>
  "runs_spec P [] = []"
| "runs_spec P (x # xs) =
     (x # takeWhile (\<lambda>y. P y = P x) xs) # runs_spec P (dropWhile (\<lambda>y. P y = P x) xs)"
  by pat_completeness auto
termination
  by (relation "measure (\<lambda>(P, xs). length xs)") (auto simp: length_dropWhile_le less_Suc_eq_le)

definition collapse_spec :: "string \<Rightarrow> string" where
  \<comment> \<open>Every run of non-alphanumeric characters becomes a single space.\<close>
  "collapse_spec s =
     concat (map (\<lambda>run. if alphanumeric_spec (hd run) then run else '' '')
               (runs_spec alphanumeric_spec s))"

fun stripLeading_spec :: "string \<Rightarrow> string" where
  "stripLeading_spec [] = []"
| "stripLeading_spec (c # cs) = (if c = CHR '' '' then stripLeading_spec cs else c # cs)"

definition stripTrailing_spec :: "string \<Rightarrow> string" where
  \<comment> \<open>From the right, a space is kept only when something is kept after it.\<close>
  "stripTrailing_spec s = foldr (\<lambda>c kept. if c = CHR '' '' \<and> kept = [] then [] else c # kept) s []"

definition normalize_spec :: "string \<Rightarrow> string" where
  "normalize_spec s = stripTrailing_spec (stripLeading_spec (collapse_spec (map lowercase_spec s)))"

function tokens_spec :: "string \<Rightarrow> string list" where
  "tokens_spec [] = []"
| "tokens_spec (c # cs) =
     (if c = CHR '' '' then tokens_spec cs
      else (c # takeWhile (\<lambda>d. d \<noteq> CHR '' '') cs) # tokens_spec (dropWhile (\<lambda>d. d \<noteq> CHR '' '') cs))"
  by pat_completeness auto
termination
  by (relation "measure length") (auto simp: length_dropWhile_le less_Suc_eq_le)

definition tokenMatches_spec :: "string list \<Rightarrow> string \<Rightarrow> bool" where
  \<comment> \<open>The label token is a prefix of some title token or has some title token as a prefix.\<close>
  "tokenMatches_spec titleToks labelTok =
     list_ex (\<lambda>t. prefix labelTok t \<or> prefix t labelTok) titleToks"

definition overlapRatio_spec :: "string \<Rightarrow> string \<Rightarrow> rat" where
  \<comment> \<open>The matched label tokens over all label tokens, of two normalized strings.\<close>
  "overlapRatio_spec l t =
     of_nat (length (filter (tokenMatches_spec (tokens_spec t)) (tokens_spec l)))
       / of_nat (length (tokens_spec l))"

definition score_spec :: "string \<Rightarrow> string \<Rightarrow> int" where
  "score_spec label title =
     (let l = normalize_spec label; t = normalize_spec title
      in if l = [] \<or> t = [] then 0
         else if l = t then 120
         else if prefix l t then 110
         else if prefix t l then 95
         else if sublist l t then 85
         else if overlapRatio_spec l t \<ge> 9 / 10 then 78
         else if overlapRatio_spec l t \<ge> 3 / 4 then 72
         else if overlapRatio_spec l t \<ge> 3 / 5 then 68
         else 0)"

section \<open>Recipe documents and the rows the queries return\<close>

record ingredient_line =
  ing_item :: "string option"
  ing_text :: "string option"

record visibility_flags =
  vis_public :: "bool option"
  vis_enterprise :: "bool option"

text \<open>A published recipe document of the content store. A field the type declares
  optional (\<^verbatim>\<open>ingredients?\<close>, \<^verbatim>\<open>visibility?\<close>, \<^verbatim>\<open>public?\<close>, \<^verbatim>\<open>item?\<close>) is an option,
  \<open>None\<close> standing for \<^verbatim>\<open>undefined\<close> and \<^verbatim>\<open>null\<close>.\<close>

record recipe_doc =
  doc_id :: string
  doc_title :: string
  doc_pluNumber :: int
  doc_ingredients :: "ingredient_line list option"
  doc_visibility :: "visibility_flags option"

record relation_recipe_row =
  rel_id :: string
  rel_title :: string
  rel_ingredients :: "ingredient_line list option"

record title_index_row =
  tix_id :: string
  tix_norm :: string

section \<open>Reference extractor\<close>

definition isWordChar :: "char \<Rightarrow> bool" where
  \<comment> \<open>The class \<^verbatim>\<open>\w\<close>, which decides the word boundary \<^verbatim>\<open>\b\<close>.\<close>
  "isWordChar c =
     (let n = (of_char c :: nat)
      in (97 \<le> n \<and> n \<le> 122) \<or> (65 \<le> n \<and> n \<le> 90) \<or> (48 \<le> n \<and> n \<le> 57) \<or> n = 95)"

definition isLineTerminator :: "char \<Rightarrow> bool" where
  \<comment> \<open>What \<^verbatim>\<open>.\<close> does not match: LF and CR.\<close>
  "isLineTerminator c = (of_char c \<in> {10, 13 :: nat})"

fun matchPtnAt :: "string \<Rightarrow> string option" where
  \<comment> \<open>The capture group of \<^verbatim>\<open>PTN\b\s+(.+)$\<close> (flag \<^verbatim>\<open>i\<close>) matched at the head of the string,
      by the backtracking matcher: \<^verbatim>\<open>\s+\<close> takes the whole run of white space and \<^verbatim>\<open>(.+)\<close>
      the rest, which must reach the end of the input without a line terminator; when
      nothing follows the white space, \<^verbatim>\<open>\s+\<close> gives its last character back to the
      group. The boundary after \<^verbatim>\<open>PTN\<close> holds whenever white space follows.\<close>
  "matchPtnAt (p # t # n # rest) =
     (if (p = CHR ''P'' \<or> p = CHR ''p'') \<and> (t = CHR ''T'' \<or> t = CHR ''t'')
         \<and> (n = CHR ''N'' \<or> n = CHR ''n'')
      then
        (let ws = takeWhile isWhiteSpace rest; r = dropWhile isWhiteSpace rest
         in if ws = [] then None
            else if r \<noteq> [] then (if list_ex isLineTerminator r then None else Some r)
            else if 2 \<le> length ws \<and> \<not> isLineTerminator (last ws) then Some [last ws]
            else None)
      else None)"
| "matchPtnAt _ = None"

fun searchPtn :: "char option \<Rightarrow> string \<Rightarrow> string option" where
  \<comment> \<open>The leftmost match of \<^verbatim>\<open>\bPTN\b\s+(.+)$\<close>; the first argument is the character before
      the current position, which decides the leading \<^verbatim>\<open>\b\<close>.\<close>
  "searchPtn prev [] = None"
| "searchPtn prev (c # cs) =
     (if (case prev of None \<Rightarrow> False | Some b \<Rightarrow> isWordChar b) then searchPtn (Some c) cs
      else (case matchPtnAt (c # cs) of
              Some captured \<Rightarrow> Some captured
            | None \<Rightarrow> searchPtn (Some c) cs))"

definition extractPtnReference :: "string option \<Rightarrow> string option" where
  \<comment> \<open>The argument is \<open>None\<close> when the value is not a string.\<close>
  "extractPtnReference v =
     (case v of
        None \<Rightarrow> None
      | Some str \<Rightarrow>
          (case searchPtn None str of
             None \<Rightarrow> None
           | Some captured \<Rightarrow> (let token = trim captured in if token = [] then None else Some token)))"

definition setAdd :: "'a \<Rightarrow> 'a list \<Rightarrow> 'a list" where
  \<comment> \<open>\<^verbatim>\<open>Set.prototype.add\<close>: a \<^verbatim>\<open>Set\<close> is its members in insertion order.\<close>
  "setAdd x xs = (if x \<in> set xs then xs else xs @ [x])"

definition uniqueList :: "'a list \<Rightarrow> 'a list" where
  \<comment> \<open>\<^verbatim>\<open>[...new Set(xs)]\<close>: the first occurrence of each element, in order.\<close>
  "uniqueList xs = fold setAdd xs []"

fun collectLabels :: "ingredient_line list \<Rightarrow> string list \<Rightarrow> string list" where
  "collectLabels [] labels = labels"
| "collectLabels (ingredient # rest) labels =
     (let fromItem = extractPtnReference (ing_item ingredient);
          fromText = extractPtnReference (ing_text ingredient);
          labels1 = (case fromItem of Some l \<Rightarrow> setAdd l labels | None \<Rightarrow> labels);
          labels2 = (case fromText of Some l \<Rightarrow> setAdd l labels1 | None \<Rightarrow> labels1)
      in collectLabels rest labels2)"

definition collectPtnLabels :: "ingredient_line list option \<Rightarrow> string list" where
  "collectPtnLabels ingredients =
     (case ingredients of
        None \<Rightarrow> []
      | Some lines \<Rightarrow> (if lines = [] then [] else collectLabels lines []))"

section \<open>Relation graph\<close>

fun bestTitleLoop :: "string \<Rightarrow> title_index_row list \<Rightarrow> string option \<times> int \<Rightarrow> string option \<times> int" where
  \<comment> \<open>The loop of \<^verbatim>\<open>resolveLabelTargetId\<close> over the title index, on \<^verbatim>\<open>(bestId, bestScore)\<close>.\<close>
  "bestTitleLoop labelNorm [] best = best"
| "bestTitleLoop labelNorm (row # rest) (bestId, bestScore) =
     (let score = scoreTitleMatch labelNorm (tix_norm row)
      in if score > bestScore then bestTitleLoop labelNorm rest (Some (tix_id row), score)
         else bestTitleLoop labelNorm rest (bestId, bestScore))"

definition resolveLabelTargetId :: "string \<Rightarrow> title_index_row list \<Rightarrow> string option" where
  "resolveLabelTargetId label titles =
     (let labelNorm = normalizeComparableText label
      in if labelNorm = [] then None
         else (case bestTitleLoop labelNorm titles (None, 0) of
                 (bestId, bestScore) \<Rightarrow> if bestScore \<ge> 72 then bestId else None))"

type_synonym adjacency = "(string \<times> string list) list"
type_synonym target_cache = "(string \<times> string option) list"

text \<open>A \<^verbatim>\<open>Map\<close> is an association list with distinct keys: \<^verbatim>\<open>get\<close> and \<^verbatim>\<open>has\<close> are
  \<^const>\<open>map_of\<close>, \<^verbatim>\<open>set\<close> is \<^const>\<open>AList.update\<close>.\<close>

definition addNeighbour :: "string \<Rightarrow> string \<Rightarrow> adjacency \<Rightarrow> adjacency" where
  \<comment> \<open>\<^verbatim>\<open>adjacency.get(k)?.add(x)\<close>\<close>
  "addNeighbour k x adj =
     (case map_of adj k of None \<Rightarrow> adj | Some members \<Rightarrow> AList.update k (setAdd x members) adj)"

fun linkLabels ::
  "title_index_row list \<Rightarrow> string \<Rightarrow> string list \<Rightarrow> adjacency \<times> target_cache \<Rightarrow> adjacency \<times> target_cache" where
  \<comment> \<open>The inner loop over the labels of one row, on the adjacency map and the label cache.\<close>
  "linkLabels titles rowId [] st = st"
| "linkLabels titles rowId (label # rest) (adj, cache) =
     (let cache1 = (if map_of cache label = None
                    then AList.update label (resolveLabelTargetId label titles) cache
                    else cache);
          targetId = (case map_of cache1 label of None \<Rightarrow> None | Some t \<Rightarrow> t)
      in case targetId of
           None \<Rightarrow> linkLabels titles rowId rest (adj, cache1)
         | Some target \<Rightarrow>
             if target = [] \<or> target = rowId then linkLabels titles rowId rest (adj, cache1)
             else linkLabels titles rowId rest
                    (addNeighbour target rowId (addNeighbour rowId target adj), cache1))"

fun linkRows ::
  "title_index_row list \<Rightarrow> relation_recipe_row list \<Rightarrow> adjacency \<times> target_cache \<Rightarrow> adjacency \<times> target_cache" where
  "linkRows titles [] st = st"
| "linkRows titles (row # rest) st =
     linkRows titles rest (linkLabels titles (rel_id row) (collectPtnLabels (rel_ingredients row)) st)"

definition titleIndex :: "relation_recipe_row list \<Rightarrow> title_index_row list" where
  "titleIndex rows =
     map (\<lambda>row. \<lparr>tix_id = rel_id row, tix_norm = normalizeComparableText (rel_title row)\<rparr>) rows"

definition emptyAdjacency :: "relation_recipe_row list \<Rightarrow> adjacency" where
  \<comment> \<open>\<^verbatim>\<open>for (const row of rows) adjacency.set(row.id, new Set())\<close>\<close>
  "emptyAdjacency rows = fold (\<lambda>row adj. AList.update (rel_id row) [] adj) rows []"

definition buildAdjacency :: "relation_recipe_row list \<Rightarrow> adjacency" where
  "buildAdjacency rows = fst (linkRows (titleIndex rows) rows (emptyAdjacency rows, []))"

section \<open>Component expander\<close>

fun seedLoop :: "adjacency \<Rightarrow> string list \<Rightarrow> string list \<times> string list \<Rightarrow> string list \<times> string list" where
  \<comment> \<open>The loop over the seeds, on \<^verbatim>\<open>(visited, queue)\<close>; a seed that is no key of the
      adjacency map is skipped.\<close>
  "seedLoop adj [] st = st"
| "seedLoop adj (seed # rest) (visited, queue) =
     (if map_of adj seed = None \<or> seed \<in> set visited then seedLoop adj rest (visited, queue)
      else seedLoop adj rest (visited @ [seed], queue @ [seed]))"

fun visitNeighbours :: "string list \<Rightarrow> string list \<times> string list \<Rightarrow> string list \<times> string list" where
  \<comment> \<open>\<^verbatim>\<open>for (const next of neighbours)\<close>, on \<^verbatim>\<open>(visited, queue)\<close>.\<close>
  "visitNeighbours [] st = st"
| "visitNeighbours (next # rest) (visited, queue) =
     (if next \<in> set visited then visitNeighbours rest (visited, queue)
      else visitNeighbours rest (visited @ [next], queue @ [next]))"

definition graphNodes :: "adjacency \<Rightarrow> string set" where
  \<comment> \<open>Every id the adjacency map mentions, as a key or as a member.\<close>
  "graphNodes adj = fst ` set adj \<union> (\<Union>members \<in> snd ` set adj. set members)"

lemma visitNeighbours_grows:
  "visitNeighbours ns (visited, queue) = (visited', queue') \<Longrightarrow>
     \<exists>new. visited' = visited @ new \<and> queue' = queue @ new \<and> set new \<subseteq> set ns - set visited"
proof (induction ns arbitrary: visited queue)
  case Nil
  then show ?case by simp
next
  case (Cons n ns)
  show ?case
  proof (cases "n \<in> set visited")
    case True
    with Cons.prems have "visitNeighbours ns (visited, queue) = (visited', queue')" by simp
    from Cons.IH[OF this] show ?thesis by auto
  next
    case False
    with Cons.prems have "visitNeighbours ns (visited @ [n], queue @ [n]) = (visited', queue')"
      by simp
    from Cons.IH[OF this] obtain new where
      "visited' = (visited @ [n]) @ new" "queue' = (queue @ [n]) @ new"
      "set new \<subseteq> set ns - set (visited @ [n])"
      by blast
    then have "visited' = visited @ (n # new) \<and> queue' = queue @ (n # new)
        \<and> set (n # new) \<subseteq> set (n # ns) - set visited"
      using False by auto
    then show ?thesis by blast
  qed
qed

function bfsLoop :: "adjacency \<Rightarrow> string list \<Rightarrow> string list \<Rightarrow> string list" where
  \<comment> \<open>\<^verbatim>\<open>while (queue.length > 0)\<close>: \<^verbatim>\<open>queue.shift()\<close> takes the head; a falsy \<^verbatim>\<open>current\<close>
      (the empty string) and a \<^verbatim>\<open>current\<close> without an entry are skipped.\<close>
  "bfsLoop adj visited [] = visited"
| "bfsLoop adj visited (current # queue) =
     (if current = [] then bfsLoop adj visited queue
      else (case map_of adj current of
              None \<Rightarrow> bfsLoop adj visited queue
            | Some neighbours \<Rightarrow>
                (case visitNeighbours neighbours (visited, queue) of
                   (visited', queue') \<Rightarrow> bfsLoop adj visited' queue')))"
  by pat_completeness auto
termination
proof (relation "inv_image (finite_psubset <*lex*> less_than)
         (\<lambda>(adj, visited, queue). (graphNodes adj - set visited, length queue))", goal_cases)
  case 1
  show ?case by auto
next
  case (2 adj visited current queue)
  then show ?case by simp
next
  case (3 adj visited current queue)
  then show ?case by simp
next
  case (4 adj visited current queue neighbours visited' queue')
  then have vn: "visitNeighbours neighbours (visited, queue) = (visited', queue')" by simp
  from visitNeighbours_grows[OF vn] obtain new where
    new: "visited' = visited @ new" "queue' = queue @ new"
      "set new \<subseteq> set neighbours - set visited"
    by blast
  from 4 have "(current, neighbours) \<in> set adj" by (auto dest: map_of_SomeD)
  then have nb: "set neighbours \<subseteq> graphNodes adj" by (force simp: graphNodes_def)
  have fin: "finite (graphNodes adj)" by (auto simp: graphNodes_def)
  show ?case
  proof (cases "new = []")
    case True
    with new show ?thesis by simp
  next
    case False
    then obtain x where x: "x \<in> set new" by (cases new) auto
    with new nb have "x \<in> graphNodes adj - set visited" "x \<notin> graphNodes adj - set visited'"
      by auto
    moreover have "graphNodes adj - set visited' \<subseteq> graphNodes adj - set visited"
      using new by auto
    ultimately have "graphNodes adj - set visited' \<subset> graphNodes adj - set visited" by blast
    with fin show ?thesis by (simp add: finite_psubset_def)
  qed
qed

definition expandComponent :: "adjacency \<Rightarrow> string list \<Rightarrow> string list" where
  \<comment> \<open>Lines 222 to 242 of \<^verbatim>\<open>resolveRelatedRecipeIds\<close>: the seeds, then the traversal;
      the result is \<^verbatim>\<open>[...visited]\<close>.\<close>
  "expandComponent adj uniqueSeeds =
     (case seedLoop adj uniqueSeeds ([], []) of (visited, queue) \<Rightarrow> bfsLoop adj visited queue)"

definition normalizeSeedIds :: "string list \<Rightarrow> string list" where
  \<comment> \<open>\<^verbatim>\<open>[...new Set(seedIds.map((id) => id.trim()).filter(Boolean))]\<close>\<close>
  "normalizeSeedIds seedIds = uniqueList (filterBoolean (map trim seedIds))"

definition fetchRelationGraph :: "recipe_doc list \<Rightarrow> relation_recipe_row list" where
  \<comment> \<open>\<^verbatim>\<open>ADMIN_RELATION_GRAPH_QUERY\<close>: every published recipe, in the store's order.\<close>
  "fetchRelationGraph ds =
     map (\<lambda>d. \<lparr>rel_id = doc_id d, rel_title = doc_title d, rel_ingredients = doc_ingredients d\<rparr>) ds"

definition resolveRelatedRecipeIds :: "recipe_doc list \<Rightarrow> string list \<Rightarrow> string list" where
  "resolveRelatedRecipeIds ds seedIds =
     (let uniqueSeeds = normalizeSeedIds seedIds
      in if uniqueSeeds = [] then []
         else (let rows = fetchRelationGraph ds
               in if rows = [] then []
                  else expandComponent (buildAdjacency rows) uniqueSeeds))"

subsection \<open>Reachability, as the specification words it\<close>

definition edges :: "adjacency \<Rightarrow> (string \<times> string) set" where
  "edges adj = {(a, b). \<exists>members. map_of adj a = Some members \<and> b \<in> set members}"

definition neighboursOf :: "adjacency \<Rightarrow> string \<Rightarrow> string set" where
  "neighboursOf adj a = (case map_of adj a of None \<Rightarrow> {} | Some members \<Rightarrow> set members)"

subsection \<open>Invariants of the graph builder\<close>

definition graphInv :: "string set \<Rightarrow> adjacency \<Rightarrow> bool" where
  \<comment> \<open>The keys are the ids \<open>K\<close>; membership is symmetric and irreflexive; every member
      is a key.\<close>
  "graphInv K adj =
     (fst ` set adj = K
      \<and> (\<forall>a b. (b \<in> neighboursOf adj a) = (a \<in> neighboursOf adj b))
      \<and> (\<forall>a. a \<notin> neighboursOf adj a)
      \<and> (\<forall>a. neighboursOf adj a \<subseteq> K))"

definition cacheInv :: "string set \<Rightarrow> target_cache \<Rightarrow> bool" where
  "cacheInv K cache = (\<forall>l t. map_of cache l = Some (Some t) \<longrightarrow> t \<in> K)"

section \<open>Visibility propagator\<close>

datatype admin_audience = Public | Enterprise

record next_visibility =
  nv_public :: bool
  nv_enterprise :: bool

text \<open>A value a write can throw: an \<^verbatim>\<open>Error\<close> with its message, or any other value (named
  by a tag).\<close>

datatype thrown = ErrorObject string | OtherValue string

datatype commit_result = Committed | Rejected thrown

text \<open>
  \<^verbatim>\<open>getSanityWriteClients()\<close> is not part of the sources at hand: the chain of write
  clients is a parameter. A client is its \<^verbatim>\<open>source\<close> label and the answer of the content
  store to \<^verbatim>\<open>client.patch(id).set(...).commit()\<close>, a function of the request.
\<close>

record write_client =
  wc_source :: string
  wc_commit :: "string \<Rightarrow> next_visibility \<Rightarrow> commit_result"

record patch_attempt =
  att_source :: string
  att_id :: string
  att_payload :: next_visibility
  att_result :: commit_result

text \<open>The content store: the published recipe documents in the store's enumeration order,
  and the log of the patch requests it has received.\<close>

record content_store =
  docs :: "recipe_doc list"
  attempts :: "patch_attempt list"

record environment =
  SANITY_API_WRITE_TOKEN :: "string option"
  SANITY_API_TOKEN :: "string option"
  SANITY_API_READ_TOKEN :: "string option"
  NEXT_PUBLIC_SANITY_PROJECT_ID :: "string option"

record visibility_row =
  vrow_id :: string
  vrow_visibility :: "visibility_flags option"

record propagation_result =
  updatedIds :: "string list"
  relatedIds :: "string list"

definition storedFlags :: "next_visibility \<Rightarrow> visibility_flags" where
  \<comment> \<open>The visibility object of a document after \<^verbatim>\<open>set({"visibility.public": ...,
      "visibility.enterprise": ...})\<close>.\<close>
  "storedFlags nextVisibility =
     \<lparr>vis_public = Some (nv_public nextVisibility),
      vis_enterprise = Some (nv_enterprise nextVisibility)\<rparr>"

definition applyPatch :: "string \<Rightarrow> next_visibility \<Rightarrow> recipe_doc list \<Rightarrow> recipe_doc list" where
  \<comment> \<open>A committed patch sets both flags of the document with that id; a rejected one
      changes nothing.\<close>
  "applyPatch recipeId nextVisibility ds =
     map (\<lambda>d. if doc_id d = recipeId
              then d\<lparr>doc_visibility := Some (storedFlags nextVisibility)\<rparr>
              else d) ds"

definition joinWith :: "string \<Rightarrow> string list \<Rightarrow> string" where
  \<comment> \<open>\<^verbatim>\<open>xs.join(sep)\<close>\<close>
  "joinWith sep xs = (case xs of [] \<Rightarrow> [] | y # ys \<Rightarrow> y @ concat (map (\<lambda>z. sep @ z) ys))"

datatype loop_exit = Returned | Threw thrown | Exhausted bool bool "string list"

fun writeClientsLoop ::
  "write_client list \<Rightarrow> string \<Rightarrow> next_visibility \<Rightarrow> bool \<Rightarrow> bool \<Rightarrow> string list
     \<Rightarrow> content_store \<Rightarrow> loop_exit \<times> content_store" where
  \<comment> \<open>The \<^verbatim>\<open>for\<close> loop of \<^verbatim>\<open>patchRecipeVisibility\<close> over the write clients, on
      \<^verbatim>\<open>sawHostMismatch\<close>, \<^verbatim>\<open>sawPermissionFailure\<close> and \<^verbatim>\<open>attemptedSources\<close>; it returns,
      rethrows, or runs off the end of the chain.\<close>
  "writeClientsLoop [] recipeId nextVisibility sawHostMismatch sawPermissionFailure attemptedSources st =
     (Exhausted sawHostMismatch sawPermissionFailure attemptedSources, st)"
| "writeClientsLoop (c # rest) recipeId nextVisibility sawHostMismatch sawPermissionFailure attemptedSources st =
     (let attempted = attemptedSources @ [wc_source c];
          answer = wc_commit c recipeId nextVisibility;
          logged = st\<lparr>attempts := attempts st @
                     [\<lparr>att_source = wc_source c, att_id = recipeId,
                       att_payload = nextVisibility, att_result = answer\<rparr>]\<rparr>
      in case answer of
           Committed \<Rightarrow> (Returned, logged\<lparr>docs := applyPatch recipeId nextVisibility (docs logged)\<rparr>)
         | Rejected err \<Rightarrow>
             (let message = (case err of ErrorObject m \<Rightarrow> toLowerCase m | OtherValue _ \<Rightarrow> [])
              in if includesStr message ''session does not match project host''
                 then writeClientsLoop rest recipeId nextVisibility True sawPermissionFailure attempted logged
                 else if includesStr message ''insufficient permissions''
                 then writeClientsLoop rest recipeId nextVisibility sawHostMismatch True attempted logged
                 else (Threw err, logged)))"

definition permissionError :: "string list \<Rightarrow> thrown" where
  "permissionError attemptedSources =
     ErrorObject (''Sanity token lacks update permission for recipe documents. Tried: ''
       @ joinWith '', '' attemptedSources
       @ ''. Use a token with update grants (prefer SANITY_API_WRITE_TOKEN) and restart the dev server.'')"

definition projectMismatchError :: "environment \<Rightarrow> thrown" where
  "projectMismatchError env =
     (let projectId = (case NEXT_PUBLIC_SANITY_PROJECT_ID env of
                         None \<Rightarrow> ''<missing-project-id>'' | Some v \<Rightarrow> v)
      in ErrorObject (''Sanity write token does not belong to project '' @ [CHR 0x22] @ projectId
           @ [CHR 0x22]
           @ ''. Create a write token in that exact project and set SANITY_API_WRITE_TOKEN.''))"

definition invalidTokenError :: thrown where
  "invalidTokenError =
     ErrorObject ''Failed to update recipe visibility due to missing or invalid Sanity token.''"

text \<open>What it is for a thrown value to name something, as the specification has the
  errors of an exhausted chain name the attempted channels and the configured project: it
  is an \<^verbatim>\<open>Error\<close> and the name occurs in its message.\<close>

definition errorNaming :: "string \<Rightarrow> thrown \<Rightarrow> bool" where
  "errorNaming name err =
     (case err of ErrorObject message \<Rightarrow> sublist name message | OtherValue _ \<Rightarrow> False)"

definition patchRecipeVisibility ::
  "environment \<Rightarrow> write_client list \<Rightarrow> string \<Rightarrow> next_visibility \<Rightarrow> content_store
     \<Rightarrow> (thrown + unit) \<times> content_store" where
  "patchRecipeVisibility env writeClients recipeId nextVisibility st =
     (case writeClientsLoop writeClients recipeId nextVisibility False False [] st of
        (Returned, st') \<Rightarrow> (Inr (), st')
      | (Threw err, st') \<Rightarrow> (Inl err, st')
      | (Exhausted sawHostMismatch sawPermissionFailure attemptedSources, st') \<Rightarrow>
          (if sawPermissionFailure then (Inl (permissionError attemptedSources), st')
           else if sawHostMismatch then (Inl (projectMismatchError env), st')
           else (Inl invalidTokenError, st')))"

definition falsyEnv :: "string option \<Rightarrow> bool" where
  \<comment> \<open>\<^verbatim>\<open>!process.env.X\<close>: the variable is unset or empty.\<close>
  "falsyEnv v = (case v of None \<Rightarrow> True | Some str \<Rightarrow> str = [])"

definition missingTokenError :: thrown where
  "missingTokenError =
     ErrorObject ''Missing Sanity API token for updates. Set SANITY_API_WRITE_TOKEN, SANITY_API_TOKEN, or SANITY_API_READ_TOKEN.''"

definition assertWriteTokenConfigured :: "environment \<Rightarrow> thrown option" where
  \<comment> \<open>\<open>Some\<close> is the error thrown.\<close>
  "assertWriteTokenConfigured env =
     (if falsyEnv (SANITY_API_WRITE_TOKEN env) \<and> falsyEnv (SANITY_API_TOKEN env)
         \<and> falsyEnv (SANITY_API_READ_TOKEN env)
      then Some missingTokenError else None)"

definition toBoolean :: "bool option \<Rightarrow> bool" where
  \<comment> \<open>\<^verbatim>\<open>Boolean(v)\<close> of an optional boolean.\<close>
  "toBoolean v = (case v of None \<Rightarrow> False | Some b \<Rightarrow> b)"

definition nextVisibilityOf :: "admin_audience \<Rightarrow> bool \<Rightarrow> visibility_flags option \<Rightarrow> next_visibility" where
  \<comment> \<open>The object literal \<^verbatim>\<open>{ public: Boolean(row.visibility?.public), enterprise:
      Boolean(row.visibility?.enterprise), [audience]: value }\<close>.\<close>
  "nextVisibilityOf audience value visibility =
     (let base = \<lparr>nv_public = toBoolean (case visibility of None \<Rightarrow> None | Some v \<Rightarrow> vis_public v),
                  nv_enterprise = toBoolean (case visibility of None \<Rightarrow> None | Some v \<Rightarrow> vis_enterprise v)\<rparr>
      in case audience of
           Public \<Rightarrow> base\<lparr>nv_public := value\<rparr>
         | Enterprise \<Rightarrow> base\<lparr>nv_enterprise := value\<rparr>)"

definition fetchVisibilityRows :: "recipe_doc list \<Rightarrow> string list \<Rightarrow> visibility_row list" where
  \<comment> \<open>\<^verbatim>\<open>ADMIN_VISIBILITY_ROWS_QUERY\<close> with \<^verbatim>\<open>$ids\<close>, in the store's order.\<close>
  "fetchVisibilityRows ds ids =
     map (\<lambda>d. \<lparr>vrow_id = doc_id d, vrow_visibility = doc_visibility d\<rparr>)
       (filter (\<lambda>d. doc_id d \<in> set ids) ds)"

fun writeRowsLoop ::
  "environment \<Rightarrow> write_client list \<Rightarrow> admin_audience \<Rightarrow> bool \<Rightarrow> visibility_row list
     \<Rightarrow> string list \<Rightarrow> content_store \<Rightarrow> (thrown + string list) \<times> content_store" where
  \<comment> \<open>\<^verbatim>\<open>for (const row of currentRows)\<close>, on \<^verbatim>\<open>updatedIds\<close> and the store; an error of
      \<^verbatim>\<open>patchRecipeVisibility\<close> leaves the loop.\<close>
  "writeRowsLoop env writeClients audience value [] updated st = (Inr updated, st)"
| "writeRowsLoop env writeClients audience value (row # rest) updated st =
     (let nextVisibility = nextVisibilityOf audience value (vrow_visibility row)
      in case patchRecipeVisibility env writeClients (vrow_id row) nextVisibility st of
           (Inl err, st') \<Rightarrow> (Inl err, st')
         | (Inr _, st') \<Rightarrow>
             writeRowsLoop env writeClients audience value rest (updated @ [vrow_id row]) st')"

definition setRecipesVisibility ::
  "environment \<Rightarrow> write_client list \<Rightarrow> string list \<Rightarrow> admin_audience \<Rightarrow> bool \<Rightarrow> content_store
     \<Rightarrow> (thrown + propagation_result) \<times> content_store" where
  "setRecipesVisibility env writeClients seedIds audience value st =
     (case assertWriteTokenConfigured env of
        Some err \<Rightarrow> (Inl err, st)
      | None \<Rightarrow>
          (let uniqueSeedIds = normalizeSeedIds seedIds
           in if uniqueSeedIds = [] then (Inr \<lparr>updatedIds = [], relatedIds = []\<rparr>, st)
              else
                (let related = resolveRelatedRecipeIds (docs st) uniqueSeedIds
                 in if related = [] then (Inr \<lparr>updatedIds = [], relatedIds = []\<rparr>, st)
                    else
                      (let currentRows = fetchVisibilityRows (docs st) related
                       in if currentRows = [] then (Inr \<lparr>updatedIds = [], relatedIds = related\<rparr>, st)
                          else
                            (case writeRowsLoop env writeClients audience value currentRows [] st of
                               (Inl err, st') \<Rightarrow> (Inl err, st')
                             | (Inr updated, st') \<Rightarrow>
                                 (Inr \<lparr>updatedIds = updated, relatedIds = related\<rparr>, st'))))))"

subsection \<open>The failure classes and the trace of one patch, as the specification words them\<close>

datatype failure_class = HostMismatch | PermissionDenied | Fatal

definition errorMessage :: "thrown \<Rightarrow> string" where
  \<comment> \<open>\<^verbatim>\<open>error instanceof Error ? error.message.toLowerCase() : ""\<close>\<close>
  "errorMessage err = (case err of ErrorObject m \<Rightarrow> toLowerCase m | OtherValue _ \<Rightarrow> [])"

definition classifyFailure :: "thrown \<Rightarrow> failure_class" where
  "classifyFailure err =
     (if includesStr (errorMessage err) ''session does not match project host'' then HostMismatch
      else if includesStr (errorMessage err) ''insufficient permissions'' then PermissionDenied
      else Fatal)"

definition answerClass :: "commit_result \<Rightarrow> failure_class option" where
  \<comment> \<open>\<open>None\<close> for a committed write.\<close>
  "answerClass answer = (case answer of Committed \<Rightarrow> None | Rejected err \<Rightarrow> Some (classifyFailure err))"

definition recoverable :: "commit_result \<Rightarrow> bool" where
  "recoverable answer =
     (answerClass answer = Some HostMismatch \<or> answerClass answer = Some PermissionDenied)"

definition attemptOf :: "string \<Rightarrow> next_visibility \<Rightarrow> write_client \<Rightarrow> patch_attempt" where
  "attemptOf recipeId nextVisibility c =
     \<lparr>att_source = wc_source c, att_id = recipeId, att_payload = nextVisibility,
      att_result = wc_commit c recipeId nextVisibility\<rparr>"

fun attemptedClients :: "write_client list \<Rightarrow> string \<Rightarrow> next_visibility \<Rightarrow> write_client list" where
  \<comment> \<open>The clients of the chain up to and including the first whose answer is not a
      recoverable failure.\<close>
  "attemptedClients [] recipeId nextVisibility = []"
| "attemptedClients (c # rest) recipeId nextVisibility =
     c # (if recoverable (wc_commit c recipeId nextVisibility)
          then attemptedClients rest recipeId nextVisibility else [])"

definition patchOutcome ::
  "environment \<Rightarrow> write_client list \<Rightarrow> string \<Rightarrow> next_visibility \<Rightarrow> thrown + unit" where
  \<comment> \<open>What \<^verbatim>\<open>patchRecipeVisibility\<close> returns or throws for one request; it is the same from
      every store.\<close>
  "patchOutcome env writeClients recipeId nextVisibility =
     fst (patchRecipeVisibility env writeClients recipeId nextVisibility \<lparr>docs = [], attempts = []\<rparr>)"

definition rowAttempts ::
  "write_client list \<Rightarrow> admin_audience \<Rightarrow> bool \<Rightarrow> visibility_row \<Rightarrow> patch_attempt list" where
  "rowAttempts writeClients audience value row =
     (let nextVisibility = nextVisibilityOf audience value (vrow_visibility row)
      in map (attemptOf (vrow_id row) nextVisibility)
           (attemptedClients writeClients (vrow_id row) nextVisibility))"

definition writtenDoc :: "admin_audience \<Rightarrow> bool \<Rightarrow> recipe_doc \<Rightarrow> recipe_doc" where
  \<comment> \<open>The document after its next visibility state was written back.\<close>
  "writtenDoc audience value d =
     d\<lparr>doc_visibility := Some (storedFlags (nextVisibilityOf audience value (doc_visibility d)))\<rparr>"

section \<open>Navigation resolution\<close>

datatype recipe_audience_filter = AudiencePublic | AudienceEnterprise | AudienceAll

record recipe_title_row =
  trow_id :: string
  trow_title :: string
  trow_pluNumber :: int

record sub_recipe_target =
  tgt_id :: string
  tgt_title :: string
  tgt_pluNumber :: int
  tgt_directMatch :: bool

definition visibilityPredicate :: "recipe_audience_filter \<Rightarrow> recipe_doc \<Rightarrow> bool" where
  \<comment> \<open>The meaning of the GROQ predicate \<^verbatim>\<open>visibilityPredicate\<close> builds:
      \<^verbatim>\<open>coalesce(visibility.public, false) == true\<close> and its two siblings.\<close>
  "visibilityPredicate audience d =
     (let isPublic = toBoolean (case doc_visibility d of None \<Rightarrow> None | Some v \<Rightarrow> vis_public v);
          isEnterprise = toBoolean (case doc_visibility d of None \<Rightarrow> None | Some v \<Rightarrow> vis_enterprise v)
      in case audience of
           AudiencePublic \<Rightarrow> isPublic
         | AudienceEnterprise \<Rightarrow> isEnterprise
         | AudienceAll \<Rightarrow> isPublic \<or> isEnterprise)"

definition fetchTitleRows :: "recipe_doc list \<Rightarrow> recipe_audience_filter \<Rightarrow> bool \<Rightarrow> recipe_title_row list" where
  \<comment> \<open>The query of \<^verbatim>\<open>findSubRecipeTargets\<close>: every published recipe when \<^verbatim>\<open>includeAll\<close>,
      else those the audience may see.\<close>
  "fetchTitleRows ds audience includeAll =
     map (\<lambda>d. \<lparr>trow_id = doc_id d, trow_title = doc_title d, trow_pluNumber = doc_pluNumber d\<rparr>)
       (if includeAll then ds else filter (visibilityPredicate audience) ds)"

fun bestTargetLoop ::
  "string \<Rightarrow> (recipe_title_row \<times> string) list \<Rightarrow> sub_recipe_target option \<times> int
     \<Rightarrow> sub_recipe_target option \<times> int" where
  \<comment> \<open>The loop over \<^verbatim>\<open>normalizedRows\<close> (a row with its \<^verbatim>\<open>norm\<close>), on \<^verbatim>\<open>(best, bestScore)\<close>.\<close>
  "bestTargetLoop labelNorm [] st = st"
| "bestTargetLoop labelNorm ((row, titleNorm) # rest) (best, bestScore) =
     (let score = scoreTitleMatch labelNorm titleNorm
      in if score > bestScore
         then bestTargetLoop labelNorm rest
                (Some \<lparr>tgt_id = trow_id row, tgt_title = trow_title row,
                       tgt_pluNumber = trow_pluNumber row, tgt_directMatch = (score \<ge> 72)\<rparr>, score)
         else bestTargetLoop labelNorm rest (best, bestScore))"

text \<open>
  The result is a plain object used as a record from label to target. The assignment
  \<^verbatim>\<open>result[label] = value\<close> creates or overwrites the own property \<^verbatim>\<open>label\<close>, except under
  the key \<^verbatim>\<open>__proto__\<close>: as long as the object has no own property of that name and still
  inherits the accessor \<^verbatim>\<open>__proto__\<close> of \<^verbatim>\<open>Object.prototype\<close> (directly, or through a target
  object that has become its prototype), the assignment calls the setter, which makes the
  value, a target object or \<^verbatim>\<open>null\<close>, the prototype of the object and creates no own
  property. The model keeps the own properties and the prototype.
\<close>

datatype record_prototype = ObjectPrototype | TargetPrototype sub_recipe_target | NullPrototype

record target_record =
  rec_entries :: "(string \<times> sub_recipe_target option) list"
  rec_prototype :: record_prototype

definition emptyRecord :: target_record where
  \<comment> \<open>The object literal \<^verbatim>\<open>{}\<close>.\<close>
  "emptyRecord = \<lparr>rec_entries = [], rec_prototype = ObjectPrototype\<rparr>"

definition assignProperty :: "string \<Rightarrow> sub_recipe_target option \<Rightarrow> target_record \<Rightarrow> target_record" where
  \<comment> \<open>\<^verbatim>\<open>result[key] = v\<close>; \<open>None\<close> is \<^verbatim>\<open>null\<close>.\<close>
  "assignProperty key v result =
     (if key = ''__proto__'' \<and> map_of (rec_entries result) key = None
         \<and> rec_prototype result \<noteq> NullPrototype
      then result\<lparr>rec_prototype := (case v of None \<Rightarrow> NullPrototype | Some target \<Rightarrow> TargetPrototype target)\<rparr>
      else result\<lparr>rec_entries := AList.update key v (rec_entries result)\<rparr>)"

fun resolveLabels ::
  "(recipe_title_row \<times> string) list \<Rightarrow> string list \<Rightarrow> target_record \<Rightarrow> target_record" where
  \<comment> \<open>\<^verbatim>\<open>for (const label of uniqueLabels)\<close>, on \<^verbatim>\<open>result\<close>; \<open>Some None\<close> under a key is the
      stored \<^verbatim>\<open>null\<close>.\<close>
  "resolveLabels normalizedRows [] result = result"
| "resolveLabels normalizedRows (label # rest) result =
     (let labelNorm = normalizeComparableText label
      in if labelNorm = [] then resolveLabels normalizedRows rest (assignProperty label None result)
         else (case bestTargetLoop labelNorm normalizedRows (None, 0) of
                 (best, bestScore) \<Rightarrow>
                   resolveLabels normalizedRows rest
                     (assignProperty label (if bestScore \<ge> 60 then best else None) result)))"

definition findSubRecipeTargets ::
  "recipe_doc list \<Rightarrow> string list \<Rightarrow> recipe_audience_filter \<Rightarrow> bool \<Rightarrow> target_record" where
  "findSubRecipeTargets ds labels audience includeAll =
     (let uniqueLabels = uniqueList (filterBoolean (map trim labels))
      in if uniqueLabels = [] then emptyRecord
         else (let rows = fetchTitleRows ds audience includeAll;
                   normalizedRows = map (\<lambda>row. (row, normalizeComparableText (trow_title row))) rows
               in resolveLabels normalizedRows uniqueLabels emptyRecord))"


subsection \<open>The navigation thresholds, as the specification words them\<close>

definition bestMatchScore_spec :: "string \<Rightarrow> recipe_title_row list \<Rightarrow> int" where
  \<comment> \<open>The highest score of the label against a title of the corpus; 0 over no title.\<close>
  "bestMatchScore_spec label rows = Max (insert 0 ((\<lambda>row. titleMatchScore label (trow_title row)) ` set rows))"

definition bestMatch_spec :: "string \<Rightarrow> recipe_title_row list \<Rightarrow> recipe_title_row option" where
  \<comment> \<open>The first row, in the corpus order, that reaches the highest score.\<close>
  "bestMatch_spec label rows =
     find (\<lambda>row. titleMatchScore label (trow_title row) = bestMatchScore_spec label rows) rows"

definition navigationTarget_spec :: "string \<Rightarrow> recipe_title_row list \<Rightarrow> sub_recipe_target option" where
  \<comment> \<open>Unresolved below 60; else the best match, direct exactly from 72 on.\<close>
  "navigationTarget_spec label rows =
     (if bestMatchScore_spec label rows < 60 then None
      else (case bestMatch_spec label rows of
              None \<Rightarrow> None
            | Some row \<Rightarrow>
                Some \<lparr>tgt_id = trow_id row, tgt_title = trow_title row,
                      tgt_pluNumber = trow_pluNumber row,
                      tgt_directMatch = (bestMatchScore_spec label rows \<ge> 72)\<rparr>))"

definition targetOf :: "recipe_title_row \<Rightarrow> int \<Rightarrow> sub_recipe_target" where
  "targetOf row score =
     \<lparr>tgt_id = trow_id row, tgt_title = trow_title row, tgt_pluNumber = trow_pluNumber row,
      tgt_directMatch = (score \<ge> 72)\<rparr>"

section \<open>Example data\<close>

definition chainGraph :: adjacency where
  \<comment> \<open>The chain A - B - C - D and, apart from it, the pair X - Y.\<close>
  "chainGraph =
     [(''A'', [''B'']), (''B'', [''A'', ''C'']), (''C'', [''B'', ''D'']), (''D'', [''C'']),
      (''X'', [''Y'']), (''Y'', [''X''])]"

definition plainDoc :: "string \<Rightarrow> string \<Rightarrow> string list \<Rightarrow> recipe_doc" where
  \<comment> \<open>A recipe with the given id, title and ingredient texts, and no visibility object.\<close>
  "plainDoc i t ingredientTexts =
     \<lparr>doc_id = i, doc_title = t, doc_pluNumber = 0,
      doc_ingredients = Some (map (\<lambda>l. \<lparr>ing_item = None, ing_text = Some l\<rparr>) ingredientTexts),
      doc_visibility = None\<rparr>"

definition exampleDocs :: "recipe_doc list" where
  "exampleDocs =
     [plainDoc ''r1'' ''Burger'' [''10 PTN Pickled Red Onio'', ''2 ptn  burger sauce ''],
      plainDoc ''r2'' ''Pickled Red Onion'' [],
      plainDoc ''r3'' ''Burger Sauce (v2)'' [''1 PTN Mayo''],
      plainDoc ''r4'' ''Mayo'' [''30 g egg yolk'', ''1 PTN Mayo''],
      plainDoc ''r5'' ''Plain Rice'' []]"

definition exampleEnv :: environment where
  "exampleEnv =
     \<lparr>SANITY_API_WRITE_TOKEN = Some ''sk-write'', SANITY_API_TOKEN = Some ''sk-legacy'',
      SANITY_API_READ_TOKEN = None, NEXT_PUBLIC_SANITY_PROJECT_ID = Some ''kitchen''\<rparr>"

definition flagsDoc :: "recipe_doc \<Rightarrow> bool option \<Rightarrow> bool option \<Rightarrow> recipe_doc" where
  "flagsDoc d p e = d\<lparr>doc_visibility := Some \<lparr>vis_public = p, vis_enterprise = e\<rparr>\<rparr>"

definition exampleStore :: content_store where
  "exampleStore =
     \<lparr>docs =
        [flagsDoc (plainDoc ''r1'' ''Burger'' [''10 PTN Pickled Red Onio'', ''2 ptn  burger sauce ''])
           (Some True) (Some True),
         flagsDoc (plainDoc ''r2'' ''Pickled Red Onion'' []) (Some False) None,
         plainDoc ''r3'' ''Burger Sauce (v2)'' [''1 PTN Mayo''],
         flagsDoc (plainDoc ''r4'' ''Mayo'' [''30 g egg yolk'', ''1 PTN Mayo'']) None (Some True),
         flagsDoc (plainDoc ''r5'' ''Plain Rice'' []) (Some True) (Some False)],
      attempts = []\<rparr>"

definition hostMismatchAnswer :: commit_result where
  "hostMismatchAnswer = Rejected (ErrorObject ''Session does not match project host'')"

definition permissionAnswer :: commit_result where
  "permissionAnswer = Rejected (ErrorObject ''Insufficient permissions; permission update required'')"

definition timeoutAnswer :: commit_result where
  "timeoutAnswer = Rejected (ErrorObject ''Request timed out'')"

definition constClient :: "string \<Rightarrow> commit_result \<Rightarrow> write_client" where
  "constClient source answer = \<lparr>wc_source = source, wc_commit = (\<lambda>recipeId nextVisibility. answer)\<rparr>"

definition fallbackClients :: "write_client list" where
  \<comment> \<open>The first token belongs to another project; the second one commits.\<close>
  "fallbackClients =
     [constClient ''SANITY_API_WRITE_TOKEN'' hostMismatchAnswer,
      constClient ''SANITY_API_TOKEN'' Committed]"

definition denyingClients :: "write_client list" where
  \<comment> \<open>No token may update the recipe \<open>r3\<close>; the first one commits every other recipe.\<close>
  "denyingClients =
     [\<lparr>wc_source = ''SANITY_API_WRITE_TOKEN'',
       wc_commit = (\<lambda>recipeId nextVisibility. if recipeId = ''r3'' then permissionAnswer else Committed)\<rparr>,
      constClient ''SANITY_API_TOKEN'' permissionAnswer]"

definition storeRows :: "content_store \<Rightarrow> visibility_row list" where
  \<comment> \<open>The visibility rows of all documents of a store.\<close>
  "storeRows st = fetchVisibilityRows (docs st) (map doc_id (docs st))"

definition hostClient :: write_client where
  "hostClient = constClient ''token-0'' hostMismatchAnswer"

definition permClient :: write_client where
  "permClient = constClient ''token-1'' permissionAnswer"

definition okClient :: write_client where
  "okClient = constClient ''token-2'' Committed"

definition timeoutClient :: write_client where
  "timeoutClient = constClient ''token-3'' timeoutAnswer"

definition riceRow :: visibility_row where
  "riceRow = \<lparr>vrow_id = ''r5'', vrow_visibility = Some \<lparr>vis_public = Some True, vis_enterprise = Some False\<rparr>\<rparr>"

section \<open>Properties of the title matcher\<close>

lemma includes_sublist: "includesStr s p = sublist p s"
  by (induction s) (auto simp: sublist_Cons_right)

lemma countMatched_filter:
  "countMatched ls ts m = m + length (filter (tokenFound ts) ls)"
  by (induction ls arbitrary: m) auto

lemma tokenFound_spec: "tokenFound ts = tokenMatches_spec ts"
  by (auto simp: tokenFound_def tokenMatches_spec_def startsWith_def fun_eq_iff list_ex_iff)

lemma scoreTitleMatch_range:
  "scoreTitleMatch l t \<in> {0, 68, 72, 78, 85, 95, 110, 120}"
  by (simp add: scoreTitleMatch_def Let_def)

lemma dropWhile_rev_keep:
  "\<not> P c \<Longrightarrow> rev (dropWhile P (rev (c # xs))) = c # rev (dropWhile P (rev xs))"
  by (simp add: dropWhile_append)

lemma trim_head:
  assumes "trim s \<noteq> []"
  shows "\<exists>c cs. trim s = c # cs \<and> \<not> isWhiteSpace c"
proof -
  have ne: "dropWhile isWhiteSpace s \<noteq> []"
  proof
    assume "dropWhile isWhiteSpace s = []"
    then have "trim s = []" unfolding trim_def by (simp del: dropWhile_eq_Nil_conv)
    with assms show False by simp
  qed
  then obtain c xs where cx: "dropWhile isWhiteSpace s = c # xs"
    by (cases "dropWhile isWhiteSpace s") auto
  then have c: "\<not> isWhiteSpace c" using hd_dropWhile[OF ne] by simp
  then have "trim s = c # rev (dropWhile isWhiteSpace (rev xs))"
    unfolding trim_def cx by (rule dropWhile_rev_keep)
  with c show ?thesis by blast
qed

lemma space_isWhiteSpace: "isWhiteSpace (CHR '' '')"
  by (simp add: isWhiteSpace_def)

lemma tokens_nonempty: "c \<noteq> CHR '' '' \<Longrightarrow> filterBoolean (splitSpace (c # cs)) \<noteq> []"
  by (auto simp: filterBoolean_def split: list.splits)

text \<open>A non-empty normalized string starts with a token, so it has one: the guard
  \<^verbatim>\<open>!labelTokens.length || !titleTokens.length\<close> never fires after the first guard, and
  the ratio never divides by zero.\<close>

lemma normalized_tokens:
  assumes "normalizeComparableText v \<noteq> []"
  shows "filterBoolean (splitSpace (normalizeComparableText v)) \<noteq> []"
proof -
  from assms obtain c cs where "normalizeComparableText v = c # cs" "\<not> isWhiteSpace c"
    unfolding normalizeComparableText_def using trim_head by blast
  then show ?thesis using space_isWhiteSpace tokens_nonempty by metis
qed

lemma scoreTitleMatch_examples:
  "scoreTitleMatch ''a'' ''a'' = 120" "scoreTitleMatch ''a'' ''ab'' = 110"
  "scoreTitleMatch ''ab'' ''a'' = 95" "scoreTitleMatch ''b'' ''ab'' = 85"
  "scoreTitleMatch ''a b'' ''b a'' = 78" "scoreTitleMatch ''a b c x'' ''c b a'' = 72"
  "scoreTitleMatch ''a b x'' ''b a'' = 68" "scoreTitleMatch ''a'' ''b'' = 0"
  by code_simp+

text \<open>The two tables of the wording against the code-unit arithmetic of the model, checked
  on each of the 256 code units.\<close>

lemma toLowerCaseChar_table: "\<forall>c. toLowerCaseChar c = lowercase_spec c"
  by code_simp

lemma isLowerAlnum_table: "\<forall>c. isLowerAlnum c = alphanumeric_spec c"
  by code_simp

lemma alnum_not_whiteSpace: "isLowerAlnum c \<Longrightarrow> \<not> isWhiteSpace c"
  by (auto simp: isLowerAlnum_def isWhiteSpace_def Let_def)

lemma toLowerCase_spec: "toLowerCase s = map lowercase_spec s"
  using toLowerCaseChar_table by (simp add: toLowerCase_def)

lemma isLowerAlnum_spec: "isLowerAlnum = alphanumeric_spec"
  using isLowerAlnum_table by (simp add: fun_eq_iff)

lemma replace_takeWhile:
  "replaceNonAlnumRuns cs = takeWhile isLowerAlnum cs @ replaceNonAlnumRuns (dropWhile isLowerAlnum cs)"
  by (induction cs) simp_all

lemma collapse_spec_Nil: "collapse_spec [] = []"
  by (simp add: collapse_spec_def)

lemma collapse_spec_Cons:
  "collapse_spec (x # xs) =
     (if alphanumeric_spec x
      then x # takeWhile alphanumeric_spec xs @ collapse_spec (dropWhile alphanumeric_spec xs)
      else CHR '' '' # collapse_spec (dropWhile (\<lambda>y. \<not> alphanumeric_spec y) xs))"
  by (simp add: collapse_spec_def)

lemma replace_collapse: "replaceNonAlnumRuns s = collapse_spec s"
proof (induction s rule: length_induct)
  case (1 s)
  show ?case
  proof (cases s)
    case Nil
    then show ?thesis by (simp add: collapse_spec_Nil)
  next
    case (Cons x xs)
    have a: "replaceNonAlnumRuns (dropWhile alphanumeric_spec xs) = collapse_spec (dropWhile alphanumeric_spec xs)"
      using 1 Cons by (simp add: length_dropWhile_le less_Suc_eq_le)
    have b: "replaceNonAlnumRuns (dropWhile (\<lambda>y. \<not> alphanumeric_spec y) xs)
        = collapse_spec (dropWhile (\<lambda>y. \<not> alphanumeric_spec y) xs)"
      using 1 Cons by (simp add: length_dropWhile_le less_Suc_eq_le)
    show ?thesis
    proof (cases "alphanumeric_spec x")
      case True
      have "replaceNonAlnumRuns (x # xs) = x # replaceNonAlnumRuns xs"
        using True by (simp add: isLowerAlnum_spec)
      also have "\<dots> = x # takeWhile alphanumeric_spec xs @ replaceNonAlnumRuns (dropWhile alphanumeric_spec xs)"
        using replace_takeWhile[of xs] by (simp add: isLowerAlnum_spec)
      finally show ?thesis unfolding Cons collapse_spec_Cons a using True by simp
    next
      case False
      then show ?thesis unfolding Cons collapse_spec_Cons by (simp add: isLowerAlnum_spec b)
    qed
  qed
qed

lemma replace_chars: "c \<in> set (replaceNonAlnumRuns s) \<Longrightarrow> isLowerAlnum c \<or> c = CHR '' ''"
proof (induction s rule: replaceNonAlnumRuns.induct)
  case 1
  then show ?case by simp
next
  case (2 d ds)
  then show ?case by (auto split: if_splits dest: set_dropWhileD)
qed

lemma stripLeading_dropWhile: "stripLeading_spec s = dropWhile (\<lambda>c. c = CHR '' '') s"
  by (induction s) simp_all

lemma stripTrailing_dropWhile: "stripTrailing_spec s = rev (dropWhile (\<lambda>c. c = CHR '' '') (rev s))"
  by (induction s) (auto simp: stripTrailing_spec_def dropWhile_append)

lemma trim_spaces:
  assumes "\<And>c. c \<in> set u \<Longrightarrow> isWhiteSpace c = (c = CHR '' '')"
  shows "trim u = stripTrailing_spec (stripLeading_spec u)"
proof -
  have a: "dropWhile isWhiteSpace u = dropWhile (\<lambda>c. c = CHR '' '') u"
    using assms by (intro dropWhile_cong) simp_all
  have "\<And>c. c \<in> set (rev (dropWhile (\<lambda>c. c = CHR '' '') u)) \<Longrightarrow> isWhiteSpace c = (c = CHR '' '')"
    using assms by (auto dest: set_dropWhileD)
  then have b: "dropWhile isWhiteSpace (rev (dropWhile (\<lambda>c. c = CHR '' '') u))
      = dropWhile (\<lambda>c. c = CHR '' '') (rev (dropWhile (\<lambda>c. c = CHR '' '') u))"
    by (intro dropWhile_cong) simp_all
  show ?thesis unfolding trim_def a b stripLeading_dropWhile stripTrailing_dropWhile ..
qed

lemma normalizeComparableText_spec: "normalizeComparableText v = normalize_spec v"
proof -
  have "isWhiteSpace c = (c = CHR '' '')" if "c \<in> set (replaceNonAlnumRuns (toLowerCase v))" for c
    using replace_chars[OF that] alnum_not_whiteSpace[of c] by (auto simp: isWhiteSpace_def)
  then have "trim (replaceNonAlnumRuns (toLowerCase v))
      = stripTrailing_spec (stripLeading_spec (replaceNonAlnumRuns (toLowerCase v)))"
    by (rule trim_spaces)
  then show ?thesis
    unfolding normalizeComparableText_def normalize_spec_def replace_collapse toLowerCase_spec .
qed

lemma splitSpace_takeWhile:
  "splitSpace s = takeWhile (\<lambda>d. d \<noteq> CHR '' '') s
      # (case dropWhile (\<lambda>d. d \<noteq> CHR '' '') s of [] \<Rightarrow> [] | _ # r \<Rightarrow> splitSpace r)"
  by (induction s) simp_all

lemma tokens_split: "filterBoolean (splitSpace s) = tokens_spec s"
proof (induction s rule: tokens_spec.induct)
  case 1
  show ?case by (simp add: filterBoolean_def)
next
  case (2 c cs)
  show ?case
  proof (cases "c = CHR '' ''")
    case True
    then show ?thesis using 2(1) by (simp add: filterBoolean_def)
  next
    case False
    let ?d = "dropWhile (\<lambda>d. d \<noteq> CHR '' '') cs"
    have ih: "filterBoolean (splitSpace ?d) = tokens_spec ?d" using 2(2)[OF False] .
    have "filterBoolean (case ?d of [] \<Rightarrow> [] | _ # r \<Rightarrow> splitSpace r) = filterBoolean (splitSpace ?d)"
    proof (cases ?d)
      case Nil
      show ?thesis unfolding Nil by (simp add: filterBoolean_def)
    next
      case (Cons e r)
      then have "?d \<noteq> []" by simp
      from hd_dropWhile[OF this] Cons have "e = CHR '' ''" by simp
      then show ?thesis unfolding Cons by (simp add: filterBoolean_def)
    qed
    then show ?thesis
      using False ih by (subst splitSpace_takeWhile) (simp add: filterBoolean_def)
  qed
qed

text \<open>
  Claim C1. For every label and title, the score of the label against the title is
  computed on the two normalized strings, the normalization being the one worded above
  (lowercased, every run of non-alphanumeric characters collapsed to a single space,
  trimmed), and is, by the first tier that applies: 0 if either normalized string is empty;
  120 if they are equal; 110 if the normalized title starts with the normalized label; 95
  if the normalized label starts with the normalized title; 85 if the normalized title
  contains the normalized label; otherwise 78, 72, 68 or 0 as the share of label tokens
  that are a prefix of, or have as a prefix, some title token is at least 0.9, 0.75, 0.6,
  or less.
\<close>

theorem titleMatchScore_tiers:
  "normalizeComparableText v = normalize_spec v
   \<and> titleMatchScore label title = score_spec label title"
proof
  show "normalizeComparableText v = normalize_spec v" by (rule normalizeComparableText_spec)
  let ?l = "normalizeComparableText label" and ?t = "normalizeComparableText title"
  show "titleMatchScore label title = score_spec label title"
  proof (cases "?l = [] \<or> ?t = []")
    case True
    then show ?thesis
      by (auto simp: titleMatchScore_def score_spec_def scoreTitleMatch_def
          normalizeComparableText_spec[symmetric])
  next
    case False
    then have "filterBoolean (splitSpace ?l) \<noteq> []" "filterBoolean (splitSpace ?t) \<noteq> []"
      using normalized_tokens by auto
    then show ?thesis
      unfolding titleMatchScore_def score_spec_def scoreTitleMatch_def Let_def
        overlapRatio_spec_def startsWith_def includes_sublist
        countMatched_filter tokenFound_spec
        normalizeComparableText_spec[symmetric] tokens_split[symmetric]
      by simp
  qed
qed

theorem titleMatchScore_tiers_witness:
  "normalize_spec ''  Pickled--Red  ONION! '' = ''pickled red onion''
   \<and> titleMatchScore ''red onion'' ''Red Onion Relish'' = 110
   \<and> score_spec ''red onion'' ''Red Onion Relish'' = 110
   \<and> score_spec ''Red Onion Relish!'' ''red onion'' = 95
   \<and> score_spec ''a b c d e f g h i x'' ''I H G F E D C B A'' = 78
   \<and> score_spec ''a b c d e f g x y z'' ''G F E D C B A'' = 68
   \<and> score_spec ''a b c d e v w x y z'' ''E D C B A'' = 0"
proof -
  have "normalizeComparableText ''  Pickled--Red  ONION! '' = ''pickled red onion''"
    and "titleMatchScore ''red onion'' ''Red Onion Relish'' = 110"
    and "titleMatchScore ''Red Onion Relish!'' ''red onion'' = 95"
    and "titleMatchScore ''a b c d e f g h i x'' ''I H G F E D C B A'' = 78"
    and "titleMatchScore ''a b c d e f g x y z'' ''G F E D C B A'' = 68"
    and "titleMatchScore ''a b c d e v w x y z'' ''E D C B A'' = 0"
    by code_simp+
  then show ?thesis
    using titleMatchScore_tiers [of "''  Pickled--Red  ONION! ''" "''red onion''" "''Red Onion Relish''"]
      titleMatchScore_tiers [of _ "''Red Onion Relish!''" "''red onion''"]
      titleMatchScore_tiers [of _ "''a b c d e f g h i x''" "''I H G F E D C B A''"]
      titleMatchScore_tiers [of _ "''a b c d e f g x y z''" "''G F E D C B A''"]
      titleMatchScore_tiers [of _ "''a b c d e v w x y z''" "''E D C B A''"]
    by simp
qed

text \<open>
  Claim C10. For every pair of strings the title-match scoring function returns one of the
  eight values 0, 68, 72, 78, 85, 95, 110 and 120, and each of the eight is returned for
  some pair.
\<close>

theorem scoreTitleMatch_values:
  "range (\<lambda>(l, t). scoreTitleMatch l t) = {0, 68, 72, 78, 85, 95, 110, 120}"
proof
  show "range (\<lambda>(l, t). scoreTitleMatch l t) \<subseteq> {0, 68, 72, 78, 85, 95, 110, 120}"
    using scoreTitleMatch_range by auto
  have "v \<in> range (\<lambda>(l, t). scoreTitleMatch l t)"
    if "v \<in> {0, 68, 72, 78, 85, 95, 110, 120}" for v
  proof -
    from that scoreTitleMatch_examples have "\<exists>l t. scoreTitleMatch l t = v"
      by (elim insertE; simp) metis+
    then show ?thesis by auto
  qed
  then show "{0, 68, 72, 78, 85, 95, 110, 120} \<subseteq> range (\<lambda>(l, t). scoreTitleMatch l t)"
    by blast
qed

theorem scoreTitleMatch_values_witness:
  "scoreTitleMatch ''pickled red onio'' ''pickled red onion'' = 110
   \<and> (110::int) \<in> range (\<lambda>(l, t). scoreTitleMatch l t)"
proof -
  have "scoreTitleMatch ''pickled red onio'' ''pickled red onion'' = 110" by code_simp
  then show ?thesis using scoreTitleMatch_values by simp
qed

section \<open>Properties of the component expander\<close>

lemma visitNeighbours_set:
  "visitNeighbours ns (visited, queue) = (visited', queue') \<Longrightarrow>
     \<exists>new. visited' = visited @ new \<and> queue' = queue @ new \<and> set new = set ns - set visited"
proof (induction ns arbitrary: visited queue)
  case Nil
  then show ?case by simp
next
  case (Cons n ns)
  show ?case
  proof (cases "n \<in> set visited")
    case True
    with Cons.prems have "visitNeighbours ns (visited, queue) = (visited', queue')" by simp
    from Cons.IH[OF this] True show ?thesis by auto
  next
    case False
    with Cons.prems have "visitNeighbours ns (visited @ [n], queue @ [n]) = (visited', queue')"
      by simp
    from Cons.IH[OF this] obtain new where
      "visited' = (visited @ [n]) @ new" "queue' = (queue @ [n]) @ new"
      "set new = set ns - set (visited @ [n])"
      by blast
    then have "visited' = visited @ (n # new) \<and> queue' = queue @ (n # new)
        \<and> set (n # new) = set (n # ns) - set visited"
      using False by auto
    then show ?thesis by blast
  qed
qed

lemma seedLoop_set:
  "seedLoop adj seeds (visited, queue) = (visited', queue') \<Longrightarrow>
     \<exists>new. visited' = visited @ new \<and> queue' = queue @ new
       \<and> set new = {s \<in> set seeds. map_of adj s \<noteq> None} - set visited"
proof (induction seeds arbitrary: visited queue)
  case Nil
  then show ?case by simp
next
  case (Cons s seeds)
  show ?case
  proof (cases "map_of adj s = None \<or> s \<in> set visited")
    case True
    with Cons.prems have "seedLoop adj seeds (visited, queue) = (visited', queue')" by auto
    from Cons.IH[OF this] True show ?thesis by auto
  next
    case False
    with Cons.prems have "seedLoop adj seeds (visited @ [s], queue @ [s]) = (visited', queue')"
      by simp
    from Cons.IH[OF this] obtain new where
      "visited' = (visited @ [s]) @ new" "queue' = (queue @ [s]) @ new"
      "set new = {x \<in> set seeds. map_of adj x \<noteq> None} - set (visited @ [s])"
      by blast
    then have "visited' = visited @ (s # new) \<and> queue' = queue @ (s # new)
        \<and> set (s # new) = {x \<in> set (s # seeds). map_of adj x \<noteq> None} - set visited"
      using False by auto
    then show ?thesis by blast
  qed
qed

lemma edges_Image: "edges adj `` {a} = neighboursOf adj a"
  by (auto simp: edges_def neighboursOf_def split: option.splits)

lemma bfsLoop_sound:
  "set (bfsLoop adj visited queue) \<subseteq> set visited \<union> (edges adj)\<^sup>* `` set queue"
proof (induction adj visited queue rule: bfsLoop.induct)
  case (1 adj visited)
  show ?case by simp
next
  case (2 adj visited current queue)
  show ?case
  proof (cases "current = []")
    case True
    with 2(1)[OF True] show ?thesis by auto
  next
    case ne: False
    show ?thesis
    proof (cases "map_of adj current")
      case None
      with 2(2)[OF ne None] ne show ?thesis by auto
    next
      case (Some neighbours)
      obtain visited' queue' where vn: "visitNeighbours neighbours (visited, queue) = (visited', queue')"
        by (cases "visitNeighbours neighbours (visited, queue)")
      from visitNeighbours_set[OF vn] obtain new where
        new: "visited' = visited @ new" "queue' = queue @ new" "set new = set neighbours - set visited"
        by blast
      have IH: "set (bfsLoop adj visited' queue') \<subseteq> set visited' \<union> (edges adj)\<^sup>* `` set queue'"
        using 2(3)[OF ne Some vn[symmetric]] .
      have step: "set new \<subseteq> edges adj `` {current}"
        using new Some by (auto simp: edges_def)
      then have "set new \<subseteq> (edges adj)\<^sup>* `` {current}" by auto
      moreover have "(edges adj)\<^sup>* `` set new \<subseteq> (edges adj)\<^sup>* `` {current}"
        using step by (auto intro: converse_rtrancl_into_rtrancl)
      ultimately have sub: "set visited' \<union> (edges adj)\<^sup>* `` set queue'
          \<subseteq> set visited \<union> (edges adj)\<^sup>* `` set (current # queue)"
        unfolding new(1,2) by (simp add: Image_Un) blast
      have eq: "bfsLoop adj visited (current # queue) = bfsLoop adj visited' queue'"
        using ne Some vn by simp
      show ?thesis unfolding eq using IH sub by blast
    qed
  qed
qed

lemma bfsLoop_closed:
  assumes "neighboursOf adj [] = {}"
    and "set queue \<subseteq> set visited"
    and "edges adj `` (set visited - set queue) \<subseteq> set visited"
  shows "set visited \<subseteq> set (bfsLoop adj visited queue)
     \<and> edges adj `` set (bfsLoop adj visited queue) \<subseteq> set (bfsLoop adj visited queue)"
  using assms
proof (induction adj visited queue rule: bfsLoop.induct)
  case (1 adj visited)
  then show ?case by simp
next
  case (2 adj visited current queue)
  have cur: "current \<in> set visited" using 2(5) by simp
  show ?case
  proof (cases "current = []")
    case True
    then have "edges adj `` {current} = {}" using 2(4) by (simp add: edges_Image)
    then have "edges adj `` (set visited - set queue) \<subseteq> set visited"
      using 2(6) by auto
    with 2(1)[OF True 2(4)] 2(5) True show ?thesis by simp
  next
    case ne: False
    show ?thesis
    proof (cases "map_of adj current")
      case None
      then have "edges adj `` {current} = {}" by (simp add: edges_Image neighboursOf_def)
      then have "edges adj `` (set visited - set queue) \<subseteq> set visited"
        using 2(6) by auto
      with 2(2)[OF ne None 2(4)] 2(5) ne None show ?thesis by simp
    next
      case (Some neighbours)
      obtain visited' queue' where vn: "visitNeighbours neighbours (visited, queue) = (visited', queue')"
        by (cases "visitNeighbours neighbours (visited, queue)")
      from visitNeighbours_set[OF vn] obtain new where
        new: "visited' = visited @ new" "queue' = queue @ new" "set new = set neighbours - set visited"
        by blast
      have nb: "edges adj `` {current} = set neighbours"
        using Some by (simp add: edges_Image neighboursOf_def)
      have q: "set queue' \<subseteq> set visited'" using new 2(5) by auto
      have "edges adj `` (set visited' - set queue') \<subseteq> set visited'"
      proof
        fix b assume "b \<in> edges adj `` (set visited' - set queue')"
        then obtain a where a: "a \<in> set visited' - set queue'" "(a, b) \<in> edges adj" by auto
        then have av: "a \<in> set visited" "a \<notin> set queue" using new by auto
        show "b \<in> set visited'"
        proof (cases "a = current")
          case True
          with a nb have "b \<in> set neighbours" by auto
          then show ?thesis using new by auto
        next
          case False
          with av have "a \<in> set visited - set (current # queue)" by simp
          with a(2) 2(6) have "b \<in> set visited" by auto
          then show ?thesis using new by simp
        qed
      qed
      from 2(3)[OF ne Some vn[symmetric] 2(4) q this]
      have IH: "set visited' \<subseteq> set (bfsLoop adj visited' queue')
        \<and> edges adj `` set (bfsLoop adj visited' queue') \<subseteq> set (bfsLoop adj visited' queue')" .
      have eq: "bfsLoop adj visited (current # queue) = bfsLoop adj visited' queue'"
        using ne Some vn by simp
      have "set visited \<subseteq> set visited'" using new by simp
      then show ?thesis unfolding eq using IH by blast
    qed
  qed
qed

lemma closed_rtrancl_Image:
  assumes "S \<subseteq> F" "E `` F \<subseteq> F"
  shows "E\<^sup>* `` S \<subseteq> F"
proof
  fix b assume "b \<in> E\<^sup>* `` S"
  then obtain a where "a \<in> S" "(a, b) \<in> E\<^sup>*" by auto
  from this(2) \<open>a \<in> S\<close> show "b \<in> F"
    using assms by (induction rule: rtrancl_induct) auto
qed

lemma expandComponent_reach:
  assumes "neighboursOf adj [] = {}"
  shows "set (expandComponent adj seeds) = (edges adj)\<^sup>* `` (set seeds \<inter> fst ` set adj)"
proof -
  obtain visited queue where sl: "seedLoop adj seeds ([], []) = (visited, queue)"
    by (cases "seedLoop adj seeds ([], [])")
  from seedLoop_set[OF sl] have vq: "queue = visited"
    and sv: "set visited = {s \<in> set seeds. map_of adj s \<noteq> None}" by auto
  have dom: "set visited = set seeds \<inter> fst ` set adj"
    unfolding sv using dom_map_of_conv_image_fst[of adj] by (auto simp: dom_def)
  have res: "expandComponent adj seeds = bfsLoop adj visited visited"
    by (simp add: expandComponent_def sl vq)
  have "set (bfsLoop adj visited visited) \<subseteq> (edges adj)\<^sup>* `` set visited"
    using bfsLoop_sound[of adj visited visited] by auto
  moreover have "(edges adj)\<^sup>* `` set visited \<subseteq> set (bfsLoop adj visited visited)"
    using bfsLoop_closed[OF assms, of visited visited] by (intro closed_rtrancl_Image) auto
  ultimately show ?thesis unfolding res dom by blast
qed

lemma bfsLoop_mono: "set visited \<subseteq> set (bfsLoop adj visited queue)"
proof (induction adj visited queue rule: bfsLoop.induct)
  case (1 adj visited)
  show ?case by simp
next
  case (2 adj visited current queue)
  show ?case
  proof (cases "current = []")
    case True
    with 2(1)[OF True] show ?thesis by simp
  next
    case ne: False
    show ?thesis
    proof (cases "map_of adj current")
      case None
      with 2(2)[OF ne None] ne show ?thesis by simp
    next
      case (Some neighbours)
      obtain visited' queue' where vn: "visitNeighbours neighbours (visited, queue) = (visited', queue')"
        by (cases "visitNeighbours neighbours (visited, queue)")
      from visitNeighbours_set[OF vn] obtain new where "visited' = visited @ new" by blast
      then have sub: "set visited \<subseteq> set visited'" by simp
      have eq: "bfsLoop adj visited (current # queue) = bfsLoop adj visited' queue'"
        using ne Some vn by simp
      show ?thesis unfolding eq using sub 2(3)[OF ne Some vn[symmetric]] by blast
    qed
  qed
qed

section \<open>Properties of the relation graph\<close>

lemma bestTitleLoop_id:
  "bestTitleLoop labelNorm titles (bestId, bestScore) = (Some t, sc) \<Longrightarrow>
     bestId = Some t \<or> t \<in> tix_id ` set titles"
  by (induction titles arbitrary: bestId bestScore) (auto simp: Let_def split: if_splits)

lemma resolveLabelTargetId_id:
  "resolveLabelTargetId label titles = Some t \<Longrightarrow> t \<in> tix_id ` set titles"
  by (auto simp: resolveLabelTargetId_def Let_def split: if_splits prod.splits dest: bestTitleLoop_id)

lemma keys_addNeighbour: "fst ` set (addNeighbour k x adj) = fst ` set adj"
proof (cases "map_of adj k")
  case None
  then show ?thesis by (simp add: addNeighbour_def)
next
  case (Some ms)
  then have "k \<in> fst ` set adj" by (metis map_of_eq_None_iff option.distinct(1))
  with Some show ?thesis by (auto simp: addNeighbour_def dom_update)
qed

lemma neighboursOf_addNeighbour:
  "neighboursOf (addNeighbour k x adj) a =
     (if a = k \<and> k \<in> fst ` set adj then insert x (neighboursOf adj a) else neighboursOf adj a)"
proof (cases "map_of adj k")
  case None
  then have "k \<notin> fst ` set adj" by (simp add: map_of_eq_None_iff)
  with None show ?thesis by (simp add: addNeighbour_def)
next
  case (Some ms)
  then have "k \<in> fst ` set adj" by (metis map_of_eq_None_iff option.distinct(1))
  with Some show ?thesis
    by (auto simp: addNeighbour_def neighboursOf_def update_conv' setAdd_def)
qed

lemma graphInv_link:
  assumes "graphInv K adj" "r \<in> K" "t \<in> K" "t \<noteq> r"
  shows "graphInv K (addNeighbour t r (addNeighbour r t adj))"
  using assms unfolding graphInv_def
  by (simp add: keys_addNeighbour neighboursOf_addNeighbour)

lemma linkLabels_inv:
  assumes "graphInv K adj" "cacheInv K cache" "r \<in> K" "tix_id ` set titles \<subseteq> K"
    and "linkLabels titles r labels (adj, cache) = (adj', cache')"
  shows "graphInv K adj' \<and> cacheInv K cache'"
  using assms
proof (induction labels arbitrary: adj cache)
  case Nil
  then show ?case by simp
next
  case (Cons label rest)
  define cache1 where "cache1 = (if map_of cache label = None
                    then AList.update label (resolveLabelTargetId label titles) cache
                    else cache)"
  have c1: "cacheInv K cache1"
    using Cons.prems(2,4) resolveLabelTargetId_id[of label titles]
    by (auto simp: cache1_def cacheInv_def update_conv')
  define targetId where "targetId = (case map_of cache1 label of None \<Rightarrow> None | Some t \<Rightarrow> t)"
  show ?case
  proof (cases targetId)
    case None
    with Cons.prems(5) have "linkLabels titles r rest (adj, cache1) = (adj', cache')"
      by (simp add: cache1_def targetId_def Let_def)
    from Cons.IH[OF Cons.prems(1) c1 Cons.prems(3,4) this] show ?thesis .
  next
    case (Some target)
    then have tK: "target \<in> K" using c1 by (auto simp: targetId_def cacheInv_def split: option.splits)
    show ?thesis
    proof (cases "target = [] \<or> target = r")
      case True
      with Some Cons.prems(5) have "linkLabels titles r rest (adj, cache1) = (adj', cache')"
        by (simp add: cache1_def targetId_def Let_def)
      from Cons.IH[OF Cons.prems(1) c1 Cons.prems(3,4) this] show ?thesis .
    next
      case False
      with Some Cons.prems(5) have
        "linkLabels titles r rest (addNeighbour target r (addNeighbour r target adj), cache1) = (adj', cache')"
        by (simp add: cache1_def targetId_def Let_def)
      moreover have "graphInv K (addNeighbour target r (addNeighbour r target adj))"
        using graphInv_link[OF Cons.prems(1,3) tK] False by simp
      ultimately show ?thesis using Cons.IH c1 Cons.prems(3,4) by blast
    qed
  qed
qed

lemma linkRows_inv:
  assumes "graphInv K adj" "cacheInv K cache" "rel_id ` set rows \<subseteq> K" "tix_id ` set titles \<subseteq> K"
    and "linkRows titles rows (adj, cache) = (adj', cache')"
  shows "graphInv K adj' \<and> cacheInv K cache'"
  using assms
proof (induction rows arbitrary: adj cache)
  case Nil
  then show ?case by simp
next
  case (Cons row rows)
  obtain adj1 cache1 where l1:
    "linkLabels titles (rel_id row) (collectPtnLabels (rel_ingredients row)) (adj, cache) = (adj1, cache1)"
    by (cases "linkLabels titles (rel_id row) (collectPtnLabels (rel_ingredients row)) (adj, cache)")
  have "graphInv K adj1 \<and> cacheInv K cache1"
    using linkLabels_inv[OF Cons.prems(1,2) _ Cons.prems(4) l1] Cons.prems(3) by simp
  moreover have "linkRows titles rows (adj1, cache1) = (adj', cache')"
    using Cons.prems(5) l1 by simp
  ultimately show ?case using Cons.IH[of adj1 cache1] Cons.prems(3,4) by auto
qed

lemma emptyAdjacency_fold:
  "(\<forall>a. neighboursOf adj a = {}) \<Longrightarrow>
   fst ` set (fold (\<lambda>row adj. AList.update (rel_id row) [] adj) rows adj) = fst ` set adj \<union> rel_id ` set rows
   \<and> (\<forall>a. neighboursOf (fold (\<lambda>row adj. AList.update (rel_id row) [] adj) rows adj) a = {})"
proof (induction rows arbitrary: adj)
  case Nil
  then show ?case by simp
next
  case (Cons row rows)
  have "\<forall>a. neighboursOf (AList.update (rel_id row) [] adj) a = {}"
    using Cons.prems by (auto simp: neighboursOf_def update_conv' split: option.splits)
  from Cons.IH[OF this] show ?case by (auto simp: dom_update)
qed

lemma graphInv_empty: "graphInv (rel_id ` set rows) (emptyAdjacency rows)"
  using emptyAdjacency_fold[of "[]" rows]
  by (simp add: graphInv_def emptyAdjacency_def neighboursOf_def)

lemma graphInv_build: "graphInv (rel_id ` set rows) (buildAdjacency rows)"
proof -
  obtain adj' cache' where l: "linkRows (titleIndex rows) rows (emptyAdjacency rows, []) = (adj', cache')"
    by (cases "linkRows (titleIndex rows) rows (emptyAdjacency rows, [])")
  have "tix_id ` set (titleIndex rows) \<subseteq> rel_id ` set rows" by (auto simp: titleIndex_def)
  from linkRows_inv[OF graphInv_empty _ _ this l] have "graphInv (rel_id ` set rows) adj'"
    by (simp add: cacheInv_def)
  then show ?thesis by (simp add: buildAdjacency_def l)
qed

lemma expandComponent_keys:
  assumes "graphInv K adj"
  shows "set (expandComponent adj seeds) \<subseteq> K"
proof -
  obtain visited queue where sl: "seedLoop adj seeds ([], []) = (visited, queue)"
    by (cases "seedLoop adj seeds ([], [])")
  from seedLoop_set[OF sl] have vq: "queue = visited"
    and sv: "set visited = {s \<in> set seeds. map_of adj s \<noteq> None}" by auto
  have keys: "fst ` set adj = K" and mem: "\<And>a. neighboursOf adj a \<subseteq> K"
    using assms by (auto simp: graphInv_def)
  have vK: "set visited \<subseteq> K"
    unfolding sv using keys by (auto simp: map_of_eq_None_iff)
  have "edges adj `` K \<subseteq> K"
  proof
    fix b assume "b \<in> edges adj `` K"
    then obtain a where "b \<in> edges adj `` {a}" by auto
    then show "b \<in> K" using mem[of a] by (auto simp: edges_Image)
  qed
  with vK have "(edges adj)\<^sup>* `` set visited \<subseteq> K" by (intro closed_rtrancl_Image) auto
  moreover have "set (expandComponent adj seeds) \<subseteq> set visited \<union> (edges adj)\<^sup>* `` set visited"
    using bfsLoop_sound[of adj visited visited] by (simp add: expandComponent_def sl vq)
  ultimately show ?thesis using vK by blast
qed

lemma expandComponent_seed:
  assumes "s \<in> set seeds" "s \<in> fst ` set adj"
  shows "s \<in> set (expandComponent adj seeds)"
proof -
  obtain visited queue where sl: "seedLoop adj seeds ([], []) = (visited, queue)"
    by (cases "seedLoop adj seeds ([], [])")
  from seedLoop_set[OF sl] assms have "s \<in> set visited" by (auto simp: map_of_eq_None_iff)
  then show ?thesis using bfsLoop_mono[of visited adj queue] by (auto simp: expandComponent_def sl)
qed

lemma keys_fetch: "rel_id ` set (fetchRelationGraph ds) = doc_id ` set ds"
  by (auto simp: fetchRelationGraph_def image_iff)

section \<open>The claims on the graph and its components\<close>

lemma chainGraph_expansions:
  "expandComponent chainGraph [''A''] = [''A'', ''B'', ''C'', ''D'']"
  "expandComponent chainGraph [''C''] = [''C'', ''B'', ''D'', ''A'']"
  "expandComponent chainGraph [''A'', ''X''] = [''A'', ''X'', ''B'', ''Y'', ''C'', ''D'']"
  "expandComponent chainGraph [''X''] = [''X'', ''Y'']"
  "expandComponent chainGraph [''A'', ''Z''] = [''A'', ''B'', ''C'', ''D'']"
  by code_simp+

lemma exampleDocs_graph:
  "buildAdjacency (fetchRelationGraph exampleDocs) =
     [(''r1'', [''r2'', ''r3'']), (''r2'', [''r1'']), (''r3'', [''r1'', ''r4'']), (''r4'', [''r3'']), (''r5'', [])]"
  by code_simp

lemma exampleDocs_related:
  "normalizeSeedIds ['' r2 '', ''zz'', ''r2''] = [''r2'', ''zz'']"
  "resolveRelatedRecipeIds exampleDocs ['' r2 '', ''zz'', ''r2''] = [''r2'', ''r1'', ''r3'', ''r4'']"
  "normalizeSeedIds [''r5''] = [''r5'']"
  "resolveRelatedRecipeIds exampleDocs [''r5''] = [''r5'']"
  by code_simp+

lemma singleDoc_related:
  "normalizeSeedIds [''b''] = [''b'']"
  "buildAdjacency (fetchRelationGraph [plainDoc ''a'' ''Aioli'' []]) = [(''a'', [])]"
  "resolveRelatedRecipeIds [plainDoc ''a'' ''Aioli'' []] [''b''] = []"
  by code_simp+

text \<open>
  Claim C5. The relation graph built over any recipe corpus is undirected and has no
  self-loop: for all ids \<open>a\<close> and \<open>b\<close>, \<open>b\<close> is in the adjacency set of \<open>a\<close> exactly when
  \<open>a\<close> is in the adjacency set of \<open>b\<close>, and no id is in its own adjacency set.
\<close>

theorem buildAdjacency_undirected:
  "(\<forall>a b. (b \<in> neighboursOf (buildAdjacency rows) a) = (a \<in> neighboursOf (buildAdjacency rows) b))
   \<and> (\<forall>a. a \<notin> neighboursOf (buildAdjacency rows) a)"
  using graphInv_build[of rows] by (simp add: graphInv_def)

theorem buildAdjacency_undirected_witness:
  "neighboursOf (buildAdjacency (fetchRelationGraph exampleDocs)) ''r1'' = {''r2'', ''r3''}
   \<and> ''r1'' \<in> neighboursOf (buildAdjacency (fetchRelationGraph exampleDocs)) ''r2''
   \<and> ''r1'' \<in> neighboursOf (buildAdjacency (fetchRelationGraph exampleDocs)) ''r3''
   \<and> ''r4'' \<notin> neighboursOf (buildAdjacency (fetchRelationGraph exampleDocs)) ''r4''"
proof -
  let ?g = "buildAdjacency (fetchRelationGraph exampleDocs)"
  have n1: "neighboursOf ?g ''r1'' = {''r2'', ''r3''}"
    unfolding exampleDocs_graph by (simp add: neighboursOf_def)
  from buildAdjacency_undirected[of "fetchRelationGraph exampleDocs"]
  have sym: "\<And>a b. (b \<in> neighboursOf ?g a) = (a \<in> neighboursOf ?g b)"
    and irr: "\<And>a. a \<notin> neighboursOf ?g a" by blast+
  from sym[of "''r2''" "''r1''"] sym[of "''r3''" "''r1''"] n1 irr[of "''r4''"]
  show ?thesis by simp
qed

text \<open>
  Claim C6, amended. For every adjacency structure in which the empty id has no
  neighbours, and every list of seeds, the component expander returns exactly the ids
  reachable in zero or more edges from the seeds that are keys of the adjacency structure;
  expanding from two lists of seeds returns the union of the two expansions. A seed that is
  no key of the adjacency structure is skipped by the guard \<^verbatim>\<open>!adjacency.has(seed)\<close>, so
  the claim as stated, which counts every seed as reached, fails (the counterexample
  below).
\<close>

theorem expandComponent_reachable:
  assumes "neighboursOf adj [] = {}"
  shows "set (expandComponent adj seeds) = (edges adj)\<^sup>* `` (set seeds \<inter> fst ` set adj)
    \<and> set (expandComponent adj (seeds @ seeds'))
        = set (expandComponent adj seeds) \<union> set (expandComponent adj seeds')"
  unfolding expandComponent_reach[OF assms] by (simp add: Int_Un_distrib2 Image_Un)

theorem expandComponent_reachable_witness:
  "neighboursOf chainGraph [] = {}
   \<and> set (expandComponent chainGraph [''A'']) = {''A'', ''B'', ''C'', ''D''}
   \<and> set (expandComponent chainGraph [''C'']) = {''A'', ''B'', ''C'', ''D''}
   \<and> (edges chainGraph)\<^sup>* `` {''A''} = {''A'', ''B'', ''C'', ''D''}
   \<and> (edges chainGraph)\<^sup>* `` {''C''} = {''A'', ''B'', ''C'', ''D''}
   \<and> set (expandComponent chainGraph ([''A''] @ [''X''])) = {''A'', ''B'', ''C'', ''D''} \<union> {''X'', ''Y''}"
proof -
  have h: "neighboursOf chainGraph [] = {}" by (simp add: neighboursOf_def chainGraph_def)
  have kA: "set [''A''] \<inter> fst ` set chainGraph = {''A''}"
    and kC: "set [''C''] \<inter> fst ` set chainGraph = {''C''}" by (simp_all add: chainGraph_def)
  have eA: "set (expandComponent chainGraph [''A'']) = {''A'', ''B'', ''C'', ''D''}"
    and eC: "set (expandComponent chainGraph [''C'']) = {''A'', ''B'', ''C'', ''D''}"
    and eX: "set (expandComponent chainGraph [''X'']) = {''X'', ''Y''}"
    unfolding chainGraph_expansions by (simp_all add: insert_commute)
  note tA = expandComponent_reachable[OF h, of "[''A'']" "[''X'']", unfolded kA eA eX]
  note tC = expandComponent_reachable[OF h, of "[''C'']" "[]", unfolded kC eC]
  have rA: "(edges chainGraph)\<^sup>* `` {''A''} = {''A'', ''B'', ''C'', ''D''}"
    using tA[THEN conjunct1, symmetric] .
  have u: "set (expandComponent chainGraph ([''A''] @ [''X'']))
        = {''A'', ''B'', ''C'', ''D''} \<union> {''X'', ''Y''}"
    using tA[THEN conjunct2] .
  have rC: "(edges chainGraph)\<^sup>* `` {''C''} = {''A'', ''B'', ''C'', ''D''}"
    using tC[THEN conjunct1, symmetric] .
  from h eA eC rA rC u show ?thesis by (intro conjI)
qed

theorem expandComponent_absent_seed_counterexample:
  "set (expandComponent chainGraph [''A'', ''Z'']) \<noteq> (edges chainGraph)\<^sup>* `` set [''A'', ''Z'']"
proof -
  have "''Z'' \<in> (edges chainGraph)\<^sup>* `` set [''A'', ''Z'']" by auto
  moreover have "''Z'' \<notin> set (expandComponent chainGraph [''A'', ''Z''])"
    unfolding chainGraph_expansions by simp
  ultimately show ?thesis by blast
qed

lemma expandComponent_isolated:
  "map_of adj s = Some [] \<Longrightarrow> expandComponent adj [s] = [s]"
  by (simp add: expandComponent_def)

text \<open>
  Claim C3, amended. A normalized seed is in the returned component exactly when it is a
  key of the adjacency structure, that is the id of a recipe of the corpus; a seed that is
  such a key and has no edges is returned as the only member when it is the only seed. A
  seed absent from the adjacency structure is left out (the counterexample below), where
  the claim as stated has it included.
\<close>

theorem resolveRelatedRecipeIds_seeds:
  "(s \<in> set (normalizeSeedIds seedIds) \<longrightarrow>
      (s \<in> set (resolveRelatedRecipeIds ds seedIds)) = (s \<in> doc_id ` set ds))
   \<and> (normalizeSeedIds seedIds = [s] \<and> s \<in> doc_id ` set ds
        \<and> neighboursOf (buildAdjacency (fetchRelationGraph ds)) s = {}
      \<longrightarrow> resolveRelatedRecipeIds ds seedIds = [s])"
proof (intro conjI impI)
  assume s: "s \<in> set (normalizeSeedIds seedIds)"
  then have ne: "normalizeSeedIds seedIds \<noteq> []" by auto
  show "(s \<in> set (resolveRelatedRecipeIds ds seedIds)) = (s \<in> doc_id ` set ds)"
  proof (cases "ds = []")
    case True
    then show ?thesis by (simp add: resolveRelatedRecipeIds_def fetchRelationGraph_def Let_def)
  next
    case False
    let ?rows = "fetchRelationGraph ds"
    have "?rows \<noteq> []" using False by (simp add: fetchRelationGraph_def)
    then have res: "resolveRelatedRecipeIds ds seedIds
        = expandComponent (buildAdjacency ?rows) (normalizeSeedIds seedIds)"
      using ne by (simp add: resolveRelatedRecipeIds_def Let_def)
    have inv: "graphInv (doc_id ` set ds) (buildAdjacency ?rows)"
      using graphInv_build[of ?rows] by (simp add: keys_fetch)
    then have keys: "fst ` set (buildAdjacency ?rows) = doc_id ` set ds"
      by (simp add: graphInv_def)
    show ?thesis unfolding res
    proof
      assume "s \<in> set (expandComponent (buildAdjacency ?rows) (normalizeSeedIds seedIds))"
      then show "s \<in> doc_id ` set ds" using expandComponent_keys[OF inv] by blast
    next
      assume "s \<in> doc_id ` set ds"
      then have "s \<in> fst ` set (buildAdjacency ?rows)" using keys by simp
      from expandComponent_seed[OF s this]
      show "s \<in> set (expandComponent (buildAdjacency ?rows) (normalizeSeedIds seedIds))" .
    qed
  qed
next
  let ?rows = "fetchRelationGraph ds"
  assume a: "normalizeSeedIds seedIds = [s] \<and> s \<in> doc_id ` set ds
        \<and> neighboursOf (buildAdjacency ?rows) s = {}"
  then have "?rows \<noteq> []" by (auto simp: fetchRelationGraph_def)
  with a have res: "resolveRelatedRecipeIds ds seedIds = expandComponent (buildAdjacency ?rows) [s]"
    by (simp add: resolveRelatedRecipeIds_def Let_def)
  have "fst ` set (buildAdjacency ?rows) = doc_id ` set ds"
    using graphInv_build[of ?rows] by (simp add: keys_fetch graphInv_def)
  with a have "map_of (buildAdjacency ?rows) s \<noteq> None" by (simp add: map_of_eq_None_iff)
  with a have "map_of (buildAdjacency ?rows) s = Some []"
    by (auto simp: neighboursOf_def split: option.splits)
  then show "resolveRelatedRecipeIds ds seedIds = [s]"
    unfolding res by (rule expandComponent_isolated)
qed

theorem resolveRelatedRecipeIds_seeds_witness:
  "''r2'' \<in> set (normalizeSeedIds ['' r2 '', ''zz'', ''r2'']) \<and> ''r2'' \<in> doc_id ` set exampleDocs
   \<and> ''r2'' \<in> set (resolveRelatedRecipeIds exampleDocs ['' r2 '', ''zz'', ''r2''])
   \<and> ''zz'' \<in> set (normalizeSeedIds ['' r2 '', ''zz'', ''r2'']) \<and> ''zz'' \<notin> doc_id ` set exampleDocs
   \<and> ''zz'' \<notin> set (resolveRelatedRecipeIds exampleDocs ['' r2 '', ''zz'', ''r2''])
   \<and> normalizeSeedIds [''r5''] = [''r5'']
   \<and> neighboursOf (buildAdjacency (fetchRelationGraph exampleDocs)) ''r5'' = {}
   \<and> resolveRelatedRecipeIds exampleDocs [''r5''] = [''r5'']"
proof -
  have ids: "doc_id ` set exampleDocs = {''r1'', ''r2'', ''r3'', ''r4'', ''r5''}"
    by (simp add: exampleDocs_def plainDoc_def)
  have iso: "neighboursOf (buildAdjacency (fetchRelationGraph exampleDocs)) ''r5'' = {}"
    unfolding exampleDocs_graph by (simp add: neighboursOf_def)
  from resolveRelatedRecipeIds_seeds[of "''r2''" "['' r2 '', ''zz'', ''r2'']" exampleDocs]
    resolveRelatedRecipeIds_seeds[of "''zz''" "['' r2 '', ''zz'', ''r2'']" exampleDocs]
    resolveRelatedRecipeIds_seeds[of "''r5''" "[''r5'']" exampleDocs]
  show ?thesis using ids iso exampleDocs_related by simp
qed

theorem resolveRelatedRecipeIds_absent_seed_counterexample:
  "''b'' \<in> set (normalizeSeedIds [''b''])
   \<and> ''b'' \<notin> fst ` set (buildAdjacency (fetchRelationGraph [plainDoc ''a'' ''Aioli'' []]))
   \<and> ''b'' \<notin> set (resolveRelatedRecipeIds [plainDoc ''a'' ''Aioli'' []] [''b''])"
  unfolding singleDoc_related by simp

section \<open>Properties of the visibility propagator\<close>

lemma loop_recoverable_head:
  "recoverable (wc_commit c rid nv) \<Longrightarrow>
   writeClientsLoop (c # rest) rid nv h p att st =
     writeClientsLoop rest rid nv
       (h \<or> answerClass (wc_commit c rid nv) = Some HostMismatch)
       (p \<or> answerClass (wc_commit c rid nv) = Some PermissionDenied)
       (att @ [wc_source c])
       (st\<lparr>attempts := attempts st @ [attemptOf rid nv c]\<rparr>)"
  by (cases "wc_commit c rid nv")
     (auto simp: recoverable_def answerClass_def classifyFailure_def errorMessage_def attemptOf_def Let_def)

lemma loop_recoverable_prefix:
  "\<forall>c\<in>set pre. recoverable (wc_commit c rid nv) \<Longrightarrow>
   writeClientsLoop (pre @ rest) rid nv h p att st =
     writeClientsLoop rest rid nv
       (h \<or> (\<exists>c\<in>set pre. answerClass (wc_commit c rid nv) = Some HostMismatch))
       (p \<or> (\<exists>c\<in>set pre. answerClass (wc_commit c rid nv) = Some PermissionDenied))
       (att @ map wc_source pre)
       (st\<lparr>attempts := attempts st @ map (attemptOf rid nv) pre\<rparr>)"
proof (induction pre arbitrary: h p att st)
  case Nil
  show ?case by simp
next
  case (Cons c pre)
  from Cons.prems have c: "recoverable (wc_commit c rid nv)"
    and pre: "\<forall>c\<in>set pre. recoverable (wc_commit c rid nv)" by simp_all
  show ?case
    unfolding append_Cons loop_recoverable_head[OF c] Cons.IH[OF pre]
    by (simp add: disj_ac)
qed

lemma loop_committed:
  "wc_commit c rid nv = Committed \<Longrightarrow>
   writeClientsLoop (c # rest) rid nv h p att st =
     (Returned, st\<lparr>attempts := attempts st @ [attemptOf rid nv c],
                   docs := applyPatch rid nv (docs st)\<rparr>)"
  by (simp add: attemptOf_def Let_def)

lemma loop_fatal:
  "wc_commit c rid nv = Rejected err \<Longrightarrow> classifyFailure err = Fatal \<Longrightarrow>
   writeClientsLoop (c # rest) rid nv h p att st =
     (Threw err, st\<lparr>attempts := attempts st @ [attemptOf rid nv c]\<rparr>)"
  by (auto simp: classifyFailure_def errorMessage_def attemptOf_def Let_def split: if_splits)

lemma loop_split:
  "writeClientsLoop cl rid nv h p att st =
     (fst (writeClientsLoop cl rid nv h p att st0),
      st\<lparr>attempts := attempts st @ map (attemptOf rid nv) (attemptedClients cl rid nv),
         docs := (if fst (writeClientsLoop cl rid nv h p att st0) = Returned
                  then applyPatch rid nv (docs st) else docs st)\<rparr>)"
proof (induction cl arbitrary: h p att st st0)
  case Nil
  show ?case by simp
next
  case (Cons c cl)
  show ?case
  proof (cases "recoverable (wc_commit c rid nv)")
    case True
    show ?thesis
      unfolding loop_recoverable_head[OF True]
      by (subst Cons.IH[where ?st0.0 = "st0\<lparr>attempts := attempts st0 @ [attemptOf rid nv c]\<rparr>"])
         (simp add: True)
  next
    case False
    show ?thesis
    proof (cases "wc_commit c rid nv")
      case Committed
      then show ?thesis using False by (simp add: attemptOf_def)
    next
      case (Rejected err)
      with False have "classifyFailure err = Fatal"
        by (cases "classifyFailure err") (auto simp: recoverable_def answerClass_def)
      with Rejected False show ?thesis using loop_fatal[OF Rejected, of cl h p att] by simp
    qed
  qed
qed

lemma patch_effect:
  "patchRecipeVisibility env cl rid nv st =
     (patchOutcome env cl rid nv,
      st\<lparr>attempts := attempts st @ map (attemptOf rid nv) (attemptedClients cl rid nv),
         docs := (if patchOutcome env cl rid nv = Inr ()
                  then applyPatch rid nv (docs st) else docs st)\<rparr>)"
proof -
  let ?st0 = "\<lparr>docs = [], attempts = []\<rparr>"
  obtain ex s0 where l0: "writeClientsLoop cl rid nv False False [] ?st0 = (ex, s0)"
    by (cases "writeClientsLoop cl rid nv False False [] ?st0")
  have a: "writeClientsLoop cl rid nv False False [] st =
     (ex, st\<lparr>attempts := attempts st @ map (attemptOf rid nv) (attemptedClients cl rid nv),
         docs := (if ex = Returned then applyPatch rid nv (docs st) else docs st)\<rparr>)"
    using loop_split[of cl rid nv False False "[]" st ?st0] unfolding l0 by simp
  have out: "patchOutcome env cl rid nv =
      (case ex of Returned \<Rightarrow> Inr ()
       | Threw err \<Rightarrow> Inl err
       | Exhausted hm pf srcs \<Rightarrow>
           if pf then Inl (permissionError srcs)
           else if hm then Inl (projectMismatchError env) else Inl invalidTokenError)"
    unfolding patchOutcome_def patchRecipeVisibility_def l0
    by (simp split: loop_exit.splits)
  show ?thesis
    unfolding out patchRecipeVisibility_def a
    by (cases ex) simp_all
qed

lemma patchOutcome_committed:
  assumes "\<forall>c\<in>set pre. recoverable (wc_commit c rid nv)" "wc_commit c rid nv = Committed"
  shows "patchOutcome env (pre @ c # post) rid nv = Inr ()"
  unfolding patchOutcome_def patchRecipeVisibility_def
    loop_recoverable_prefix[OF assms(1)] loop_committed[OF assms(2)]
  by simp

lemma patchOutcome_fatal:
  assumes "\<forall>c\<in>set pre. recoverable (wc_commit c rid nv)"
    "wc_commit c rid nv = Rejected err" "classifyFailure err = Fatal"
  shows "patchOutcome env (pre @ c # post) rid nv = Inl err"
  unfolding patchOutcome_def patchRecipeVisibility_def
    loop_recoverable_prefix[OF assms(1)] loop_fatal[OF assms(2,3)]
  by simp

lemma patchOutcome_exhausted:
  assumes "\<forall>c\<in>set cl. recoverable (wc_commit c rid nv)"
  shows "patchOutcome env cl rid nv =
     Inl (if \<exists>c\<in>set cl. answerClass (wc_commit c rid nv) = Some PermissionDenied
          then permissionError (map wc_source cl)
          else if \<exists>c\<in>set cl. answerClass (wc_commit c rid nv) = Some HostMismatch
          then projectMismatchError env
          else invalidTokenError)"
  using loop_recoverable_prefix[OF assms, of "[]" False False "[]" "\<lparr>docs = [], attempts = []\<rparr>"]
  unfolding patchOutcome_def patchRecipeVisibility_def
  by simp

lemma attemptedClients_all:
  "\<forall>c\<in>set cl. recoverable (wc_commit c rid nv) \<Longrightarrow> attemptedClients cl rid nv = cl"
  by (induction cl) auto

lemma attemptedClients_stop:
  "\<forall>c\<in>set pre. recoverable (wc_commit c rid nv) \<Longrightarrow> \<not> recoverable (wc_commit c rid nv) \<Longrightarrow>
     attemptedClients (pre @ c # post) rid nv = pre @ [c]"
  by (induction pre) auto

lemma not_recoverable_committed: "\<not> recoverable Committed"
  by (simp add: recoverable_def answerClass_def)

lemma not_recoverable_fatal: "classifyFailure err = Fatal \<Longrightarrow> \<not> recoverable (Rejected err)"
  by (simp add: recoverable_def answerClass_def)

lemma writeRows_fail_head:
  assumes "patchOutcome env cl (vrow_id r) (nextVisibilityOf a v (vrow_visibility r)) = Inl e"
  shows "writeRowsLoop env cl a v (r # post) upd st =
     (Inl e, st\<lparr>attempts := attempts st @ rowAttempts cl a v r\<rparr>)"
  using assms by (simp add: patch_effect rowAttempts_def Let_def)

lemma writeRows_ok_head:
  assumes "patchOutcome env cl (vrow_id r) (nextVisibilityOf a v (vrow_visibility r)) = Inr ()"
  shows "writeRowsLoop env cl a v (r # rest) upd st =
     writeRowsLoop env cl a v rest (upd @ [vrow_id r])
       (st\<lparr>attempts := attempts st @ rowAttempts cl a v r,
           docs := applyPatch (vrow_id r) (nextVisibilityOf a v (vrow_visibility r)) (docs st)\<rparr>)"
  using assms by (simp add: patch_effect rowAttempts_def Let_def)

lemma writeRows_ok_prefix:
  assumes "\<forall>row\<in>set pre. patchOutcome env cl (vrow_id row) (nextVisibilityOf a v (vrow_visibility row)) = Inr ()"
  shows "writeRowsLoop env cl a v (pre @ rest) upd st =
     writeRowsLoop env cl a v rest (upd @ map vrow_id pre)
       (st\<lparr>attempts := attempts st @ concat (map (rowAttempts cl a v) pre),
           docs := fold (\<lambda>row. applyPatch (vrow_id row) (nextVisibilityOf a v (vrow_visibility row)))
                     pre (docs st)\<rparr>)"
  using assms
proof (induction pre arbitrary: upd st)
  case Nil
  show ?case by simp
next
  case (Cons r pre)
  from Cons.prems have r: "patchOutcome env cl (vrow_id r) (nextVisibilityOf a v (vrow_visibility r)) = Inr ()"
    and pre: "\<forall>row\<in>set pre. patchOutcome env cl (vrow_id row) (nextVisibilityOf a v (vrow_visibility row)) = Inr ()"
    by simp_all
  show ?case
    unfolding append_Cons writeRows_ok_head[OF r] Cons.IH[OF pre]
    by simp
qed

lemma writeRows_success:
  "writeRowsLoop env cl a v rows upd st = (Inr upd', st') \<Longrightarrow>
     (\<forall>row\<in>set rows. patchOutcome env cl (vrow_id row) (nextVisibilityOf a v (vrow_visibility row)) = Inr ())
     \<and> upd' = upd @ map vrow_id rows"
proof (induction rows arbitrary: upd st)
  case Nil
  then show ?case by simp
next
  case (Cons r rows)
  show ?case
  proof (cases "patchOutcome env cl (vrow_id r) (nextVisibilityOf a v (vrow_visibility r))")
    case (Inl e)
    from Cons.prems show ?thesis unfolding writeRows_fail_head[OF Inl] by simp
  next
    case (Inr u)
    then have ok: "patchOutcome env cl (vrow_id r) (nextVisibilityOf a v (vrow_visibility r)) = Inr ()" by simp
    from Cons.prems[unfolded writeRows_ok_head[OF ok]] Cons.IH ok show ?thesis by fastforce
  qed
qed

lemma fold_patch_map:
  assumes "distinct (map doc_id ds)" "distinct (map vrow_id rows)"
    and "\<forall>row\<in>set rows. \<exists>d\<in>set ds. vrow_id row = doc_id d \<and> vrow_visibility row = doc_visibility d"
  shows "fold (\<lambda>row. applyPatch (vrow_id row) (nextVisibilityOf a v (vrow_visibility row))) rows ds =
     map (\<lambda>d. if doc_id d \<in> vrow_id ` set rows then writtenDoc a v d else d) ds"
  using assms(2,3)
proof (induction rows rule: rev_induct)
  case Nil
  show ?case by simp
next
  case (snoc r rows)
  from snoc.prems have d: "distinct (map vrow_id rows)" and fresh: "vrow_id r \<notin> vrow_id ` set rows"
    and cor: "\<forall>row\<in>set rows. \<exists>d\<in>set ds. vrow_id row = doc_id d \<and> vrow_visibility row = doc_visibility d"
    by auto
  from snoc.prems obtain d0 where d0: "d0 \<in> set ds" "vrow_id r = doc_id d0" "vrow_visibility r = doc_visibility d0"
    by auto
  have uniq: "\<And>d. d \<in> set ds \<Longrightarrow> doc_id d = vrow_id r \<Longrightarrow> d = d0"
    using assms(1) d0 by (metis distinct_map inj_on_def)
  have "fold (\<lambda>row. applyPatch (vrow_id row) (nextVisibilityOf a v (vrow_visibility row))) (rows @ [r]) ds
      = applyPatch (vrow_id r) (nextVisibilityOf a v (vrow_visibility r))
          (map (\<lambda>d. if doc_id d \<in> vrow_id ` set rows then writtenDoc a v d else d) ds)"
    using snoc.IH[OF d cor] by simp
  also have "\<dots> = map (\<lambda>d. if doc_id d \<in> vrow_id ` set (rows @ [r]) then writtenDoc a v d else d) ds"
    unfolding applyPatch_def map_map
  proof (rule map_cong[OF refl])
    fix d assume "d \<in> set ds"
    show "((\<lambda>d. if doc_id d = vrow_id r
               then d\<lparr>doc_visibility := Some (storedFlags (nextVisibilityOf a v (vrow_visibility r)))\<rparr>
               else d) \<circ> (\<lambda>d. if doc_id d \<in> vrow_id ` set rows then writtenDoc a v d else d)) d
        = (if doc_id d \<in> vrow_id ` set (rows @ [r]) then writtenDoc a v d else d)"
    proof (cases "doc_id d = vrow_id r")
      case True
      with \<open>d \<in> set ds\<close> uniq have "d = d0" by simp
      with True fresh d0 show ?thesis by (simp add: writtenDoc_def)
    next
      case False
      then show ?thesis by (simp add: writtenDoc_def)
    qed
  qed
  finally show ?case .
qed

lemma trim_idem: "trim (trim s) = trim s"
proof (cases "trim s = []")
  case True
  have "trim [] = []" by (simp add: trim_def)
  with True show ?thesis by simp
next
  case False
  from trim_head[OF False] obtain c cs where t: "trim s = c # cs" "\<not> isWhiteSpace c" by blast
  let ?ys = "dropWhile isWhiteSpace (rev (dropWhile isWhiteSpace s))"
  have r: "rev (trim s) = ?ys" by (simp add: trim_def)
  have ne: "?ys \<noteq> []" using False r by (metis rev_is_Nil_conv)
  have "\<not> isWhiteSpace (hd ?ys)" using hd_dropWhile[OF ne] .
  then have "dropWhile isWhiteSpace ?ys = ?ys" using ne by (cases ?ys) auto
  then have "dropWhile isWhiteSpace (rev (trim s)) = rev (trim s)" using r by simp
  moreover have "dropWhile isWhiteSpace (trim s) = trim s" using t by simp
  ultimately show ?thesis by (simp add: trim_def[of "trim s"])
qed

lemma fold_setAdd:
  "distinct acc \<Longrightarrow> distinct (fold setAdd xs acc) \<and> set (fold setAdd xs acc) = set acc \<union> set xs"
  by (induction xs arbitrary: acc) (auto simp: setAdd_def)

lemma fold_setAdd_distinct: "distinct (acc @ xs) \<Longrightarrow> fold setAdd xs acc = acc @ xs"
  by (induction xs arbitrary: acc) (auto simp: setAdd_def)

lemma uniqueList_props: "distinct (uniqueList xs)" "set (uniqueList xs) = set xs"
  using fold_setAdd[of "[]" xs] by (simp_all add: uniqueList_def)

lemma uniqueList_distinct: "distinct xs \<Longrightarrow> uniqueList xs = xs"
  using fold_setAdd_distinct[of "[]" xs] by (simp add: uniqueList_def)

lemma normalizeSeedIds_idem: "normalizeSeedIds (normalizeSeedIds seedIds) = normalizeSeedIds seedIds"
proof -
  let ?n = "normalizeSeedIds seedIds"
  have el: "\<And>x. x \<in> set ?n \<Longrightarrow> trim x = x \<and> x \<noteq> []"
    by (auto simp: normalizeSeedIds_def uniqueList_props filterBoolean_def trim_idem)
  then have "map trim ?n = ?n" by (simp add: map_idI)
  moreover have "filterBoolean ?n = ?n" using el by (simp add: filterBoolean_def filter_id_conv)
  moreover have "uniqueList ?n = ?n"
    by (rule uniqueList_distinct) (simp add: normalizeSeedIds_def uniqueList_props)
  ultimately show ?thesis by (simp add: normalizeSeedIds_def[of ?n])
qed

lemma resolveRelated_normalized:
  "resolveRelatedRecipeIds ds (normalizeSeedIds seedIds) = resolveRelatedRecipeIds ds seedIds"
  by (simp add: resolveRelatedRecipeIds_def normalizeSeedIds_idem)

lemma resolveRelated_ids: "set (resolveRelatedRecipeIds ds seedIds) \<subseteq> doc_id ` set ds"
proof (cases "normalizeSeedIds seedIds = [] \<or> fetchRelationGraph ds = []")
  case True
  then show ?thesis by (auto simp: resolveRelatedRecipeIds_def Let_def)
next
  case False
  have "graphInv (doc_id ` set ds) (buildAdjacency (fetchRelationGraph ds))"
    using graphInv_build[of "fetchRelationGraph ds"] by (simp add: keys_fetch)
  from expandComponent_keys[OF this] False show ?thesis
    by (simp add: resolveRelatedRecipeIds_def Let_def)
qed

lemma fetchVisibilityRows_ids:
  "map vrow_id (fetchVisibilityRows ds ids) = filter (\<lambda>i. i \<in> set ids) (map doc_id ds)"
  by (simp add: fetchVisibilityRows_def filter_map comp_def)

lemma fetchVisibilityRows_docs:
  "\<forall>row\<in>set (fetchVisibilityRows ds ids).
     \<exists>d\<in>set ds. vrow_id row = doc_id d \<and> vrow_visibility row = doc_visibility d"
  by (auto simp: fetchVisibilityRows_def)

lemma setRecipesVisibility_unfold:
  assumes "assertWriteTokenConfigured env = None"
  shows "setRecipesVisibility env cl seedIds a v st =
     (let related = resolveRelatedRecipeIds (docs st) seedIds;
          currentRows = fetchVisibilityRows (docs st) related
      in if currentRows = [] then (Inr \<lparr>updatedIds = [], relatedIds = related\<rparr>, st)
         else (case writeRowsLoop env cl a v currentRows [] st of
                 (Inl err, st') \<Rightarrow> (Inl err, st')
               | (Inr updated, st') \<Rightarrow> (Inr \<lparr>updatedIds = updated, relatedIds = related\<rparr>, st')))"
proof -
  have e: "normalizeSeedIds seedIds = [] \<Longrightarrow> resolveRelatedRecipeIds (docs st) seedIds = []"
    by (simp add: resolveRelatedRecipeIds_def)
  have f: "fetchVisibilityRows (docs st) [] = []" by (simp add: fetchVisibilityRows_def)
  show ?thesis
    unfolding setRecipesVisibility_def assms resolveRelated_normalized Let_def
    using e f by auto
qed

lemma nextVisibilityOf_idem:
  "nextVisibilityOf a v (Some (storedFlags (nextVisibilityOf a v vis))) = nextVisibilityOf a v vis"
  by (cases a) (simp_all add: nextVisibilityOf_def storedFlags_def toBoolean_def)

lemma writtenDoc_simps:
  "doc_id (writtenDoc a v d) = doc_id d"
  "doc_title (writtenDoc a v d) = doc_title d"
  "doc_ingredients (writtenDoc a v d) = doc_ingredients d"
  "doc_visibility (writtenDoc a v d) = Some (storedFlags (nextVisibilityOf a v (doc_visibility d)))"
  by (simp_all add: writtenDoc_def)

lemma writtenDoc_idem: "writtenDoc a v (writtenDoc a v d) = writtenDoc a v d"
  by (simp add: writtenDoc_def nextVisibilityOf_idem)

lemma related_rows_ids:
  "d \<in> set ds \<Longrightarrow>
   (doc_id d \<in> vrow_id ` set (fetchVisibilityRows ds ids)) = (doc_id d \<in> set ids)"
  by (force simp: fetchVisibilityRows_def)

lemma rows_distinct:
  "distinct (map doc_id ds) \<Longrightarrow> distinct (map vrow_id (fetchVisibilityRows ds ids))"
  by (simp add: fetchVisibilityRows_ids)

lemma setRecipesVisibility_all_ok:
  assumes cfg: "assertWriteTokenConfigured env = None"
    and dist: "distinct (map doc_id (docs st))"
    and ok: "\<forall>row\<in>set (fetchVisibilityRows (docs st) (resolveRelatedRecipeIds (docs st) seedIds)).
               patchOutcome env cl (vrow_id row) (nextVisibilityOf a v (vrow_visibility row)) = Inr ()"
  shows "setRecipesVisibility env cl seedIds a v st =
     (Inr \<lparr>updatedIds = map vrow_id (fetchVisibilityRows (docs st) (resolveRelatedRecipeIds (docs st) seedIds)),
           relatedIds = resolveRelatedRecipeIds (docs st) seedIds\<rparr>,
      st\<lparr>attempts := attempts st @ concat (map (rowAttempts cl a v)
              (fetchVisibilityRows (docs st) (resolveRelatedRecipeIds (docs st) seedIds))),
         docs := map (\<lambda>d. if doc_id d \<in> set (resolveRelatedRecipeIds (docs st) seedIds)
                          then writtenDoc a v d else d) (docs st)\<rparr>)"
proof -
  let ?related = "resolveRelatedRecipeIds (docs st) seedIds"
  let ?rows = "fetchVisibilityRows (docs st) ?related"
  have m: "fold (\<lambda>row. applyPatch (vrow_id row) (nextVisibilityOf a v (vrow_visibility row))) ?rows (docs st)
      = map (\<lambda>d. if doc_id d \<in> set ?related then writtenDoc a v d else d) (docs st)"
    unfolding fold_patch_map[OF dist rows_distinct[OF dist] fetchVisibilityRows_docs]
    by (rule map_cong[OF refl]) (simp add: related_rows_ids)
  have w: "writeRowsLoop env cl a v ?rows [] st =
      (Inr (map vrow_id ?rows),
       st\<lparr>attempts := attempts st @ concat (map (rowAttempts cl a v) ?rows),
          docs := map (\<lambda>d. if doc_id d \<in> set ?related then writtenDoc a v d else d) (docs st)\<rparr>)"
    using writeRows_ok_prefix[OF ok, of "[]" "[]" st] unfolding m by simp
  show ?thesis
  proof (cases "?rows = []")
    case True
    then have "\<And>d. d \<in> set (docs st) \<Longrightarrow> doc_id d \<notin> set ?related"
      using related_rows_ids[of _ "docs st" ?related] by simp
    then have "map (\<lambda>d. if doc_id d \<in> set ?related then writtenDoc a v d else d) (docs st) = docs st"
      by (simp add: map_idI)
    with True show ?thesis
      unfolding setRecipesVisibility_unfold[OF cfg] Let_def by simp
  next
    case False
    then show ?thesis
      unfolding setRecipesVisibility_unfold[OF cfg] Let_def w by simp
  qed
qed

lemma setRecipesVisibility_success:
  assumes run: "setRecipesVisibility env cl seedIds a v st = (Inr res, st')"
  shows "assertWriteTokenConfigured env = None
    \<and> (\<forall>row\<in>set (fetchVisibilityRows (docs st) (resolveRelatedRecipeIds (docs st) seedIds)).
               patchOutcome env cl (vrow_id row) (nextVisibilityOf a v (vrow_visibility row)) = Inr ())"
proof -
  have cfg: "assertWriteTokenConfigured env = None"
    using run by (cases "assertWriteTokenConfigured env") (simp_all add: setRecipesVisibility_def)
  let ?rows = "fetchVisibilityRows (docs st) (resolveRelatedRecipeIds (docs st) seedIds)"
  have "\<forall>row\<in>set ?rows. patchOutcome env cl (vrow_id row) (nextVisibilityOf a v (vrow_visibility row)) = Inr ()"
  proof (cases "?rows = []")
    case True
    then show ?thesis by simp
  next
    case False
    obtain r s where w: "writeRowsLoop env cl a v ?rows [] st = (r, s)"
      by (cases "writeRowsLoop env cl a v ?rows [] st")
    with run False obtain upd where "r = Inr upd"
      unfolding setRecipesVisibility_unfold[OF cfg] Let_def by (cases r) auto
    with w writeRows_success[of env cl a v ?rows "[]" st upd s] show ?thesis by simp
  qed
  with cfg show ?thesis by simp
qed

lemma rowAttempts_id: "atm \<in> set (rowAttempts cl a v row) \<Longrightarrow> att_id atm = vrow_id row"
  by (auto simp: rowAttempts_def Let_def attemptOf_def)



lemma fetchRelationGraph_written:
  "fetchRelationGraph (map (\<lambda>d. if P d then writtenDoc a v d else d) ds) = fetchRelationGraph ds"
  by (simp add: fetchRelationGraph_def writtenDoc_def)

lemma resolveRelated_written:
  "resolveRelatedRecipeIds (map (\<lambda>d. if P d then writtenDoc a v d else d) ds) seedIds
     = resolveRelatedRecipeIds ds seedIds"
  by (simp only: resolveRelatedRecipeIds_def fetchRelationGraph_written)

lemma doc_ids_written:
  "map doc_id (map (\<lambda>d. if P d then writtenDoc a v d else d) ds) = map doc_id ds"
  by (simp add: writtenDoc_def)

lemma fetchVisibilityRows_written:
  "fetchVisibilityRows (map (\<lambda>d. if doc_id d \<in> set ids then writtenDoc a v d else d) ds) ids
     = map (\<lambda>row. row\<lparr>vrow_visibility := Some (storedFlags (nextVisibilityOf a v (vrow_visibility row)))\<rparr>)
         (fetchVisibilityRows ds ids)"
  by (induction ds) (simp_all add: fetchVisibilityRows_def writtenDoc_def)

lemma rowAttempts_written:
  "rowAttempts cl a v (row\<lparr>vrow_visibility := Some (storedFlags (nextVisibilityOf a v (vrow_visibility row)))\<rparr>)
     = rowAttempts cl a v row"
  by (simp add: rowAttempts_def nextVisibilityOf_idem)

section \<open>The claims on the visibility propagator\<close>

lemma exampleStore_ids: "distinct (map doc_id (docs exampleStore))"
  by (simp add: exampleStore_def plainDoc_def flagsDoc_def)

lemma chain_answers:
  "recoverable hostMismatchAnswer" "recoverable permissionAnswer"
  "answerClass hostMismatchAnswer = Some HostMismatch"
  "answerClass permissionAnswer = Some PermissionDenied"
  "classifyFailure (ErrorObject ''Request timed out'') = Fatal"
  by code_simp+

lemma chain_commits:
  "wc_commit hostClient i n = hostMismatchAnswer" "wc_commit permClient i n = permissionAnswer"
  "wc_commit okClient i n = Committed" "wc_commit timeoutClient i n = Rejected (ErrorObject ''Request timed out'')"
  "wc_source hostClient = ''token-0''" "wc_source permClient = ''token-1''"
  by (simp_all add: hostClient_def permClient_def okClient_def timeoutClient_def constClient_def timeoutAnswer_def)

lemma joinWith_Cons: "joinWith sep (y # ys) = y @ concat (map (\<lambda>z. sep @ z) ys)"
  by (simp add: joinWith_def)

lemma sublist_append_left: "sublist s zs \<Longrightarrow> sublist s (ps @ zs)"
  by (rule sublist_order.order_trans[OF _ sublist_append_leftI])

lemma sublist_concat_sep: "s \<in> set ys \<Longrightarrow> sublist s (concat (map (\<lambda>z. sep @ z) ys))"
proof (induction ys)
  case Nil
  then show ?case by simp
next
  case (Cons y ys)
  show ?case
  proof (cases "s = y")
    case True
    have "sublist y (sep @ y @ concat (map (\<lambda>z. sep @ z) ys))" by (rule sublist_appendI)
    then show ?thesis using True by simp
  next
    case False
    with Cons have "sublist s (concat (map (\<lambda>z. sep @ z) ys))" by simp
    then have "sublist s ((sep @ y) @ concat (map (\<lambda>z. sep @ z) ys))"
      by (rule sublist_append_left)
    then show ?thesis by simp
  qed
qed

lemma joinWith_names: "s \<in> set xs \<Longrightarrow> sublist s (joinWith sep xs)"
proof (cases xs)
  case Nil
  assume "s \<in> set xs"
  with Nil show ?thesis by simp
next
  case (Cons y ys)
  assume s: "s \<in> set xs"
  show ?thesis
  proof (cases "s = y")
    case True
    then show ?thesis unfolding Cons joinWith_Cons by (simp add: sublist_append_rightI)
  next
    case False
    with s Cons have "s \<in> set ys" by simp
    then have "sublist s (concat (map (\<lambda>z. sep @ z) ys))" by (rule sublist_concat_sep)
    then show ?thesis unfolding Cons joinWith_Cons by (rule sublist_append_left)
  qed
qed

lemma permissionError_names_all:
  "errorNaming (joinWith '', '' srcs) (permissionError srcs)"
  unfolding errorNaming_def permissionError_def thrown.case by (rule sublist_appendI)

lemma permissionError_names: "s \<in> set srcs \<Longrightarrow> errorNaming s (permissionError srcs)"
proof -
  assume "s \<in> set srcs"
  then have a: "sublist s (joinWith '', '' srcs)" by (rule joinWith_names)
  have b: "sublist (joinWith '', '' srcs)
     (''Sanity token lacks update permission for recipe documents. Tried: ''
       @ joinWith '', '' srcs
       @ ''. Use a token with update grants (prefer SANITY_API_WRITE_TOKEN) and restart the dev server.'')"
    by (rule sublist_appendI)
  from a b show ?thesis
    unfolding errorNaming_def permissionError_def thrown.case by (rule sublist_order.order_trans)
qed

lemma projectMismatchError_names:
  "NEXT_PUBLIC_SANITY_PROJECT_ID env = Some projectId \<Longrightarrow> errorNaming projectId (projectMismatchError env)"
proof -
  assume p: "NEXT_PUBLIC_SANITY_PROJECT_ID env = Some projectId"
  have "sublist projectId ((''Sanity write token does not belong to project '' @ [CHR 0x22]) @ projectId
           @ ([CHR 0x22]
           @ ''. Create a write token in that exact project and set SANITY_API_WRITE_TOKEN.''))"
    by (rule sublist_appendI)
  then show ?thesis
    unfolding errorNaming_def projectMismatchError_def p Let_def by simp
qed

lemma projectMismatchError_placeholder:
  "NEXT_PUBLIC_SANITY_PROJECT_ID env = None \<Longrightarrow>
     errorNaming ''<missing-project-id>'' (projectMismatchError env)"
proof -
  assume p: "NEXT_PUBLIC_SANITY_PROJECT_ID env = None"
  have "sublist ''<missing-project-id>''
          ((''Sanity write token does not belong to project '' @ [CHR 0x22]) @ ''<missing-project-id>''
           @ ([CHR 0x22]
           @ ''. Create a write token in that exact project and set SANITY_API_WRITE_TOKEN.''))"
    by (rule sublist_appendI)
  then show ?thesis
    unfolding errorNaming_def projectMismatchError_def p Let_def by simp
qed

lemma invalidTokenError_names: "errorNaming ''missing or invalid Sanity token'' invalidTokenError"
proof -
  have "sublist ''missing or invalid Sanity token''
          (''Failed to update recipe visibility due to '' @ ''missing or invalid Sanity token'' @ ''.'')"
    by (rule sublist_appendI)
  then show ?thesis
    unfolding errorNaming_def invalidTokenError_def by simp
qed

lemma exhausted_errors_distinct:
  "permissionError srcs \<noteq> projectMismatchError env"
  "permissionError srcs \<noteq> invalidTokenError"
  "projectMismatchError env \<noteq> invalidTokenError"
  by (simp_all add: permissionError_def projectMismatchError_def invalidTokenError_def Let_def)

text \<open>
  Claim C2. For every write of one recipe: while the clients tried so far failed with a host
  or project mismatch or a permission denial, the next client of the chain is tried; a
  client that commits ends the chain with success; any other failure is rethrown as it is,
  after which no further client and no further recipe is tried; and when every client of
  the chain failed recoverably the error raised is the permission error if some attempt
  was a permission denial, else the project error if some attempt was a host mismatch, else
  the error about a missing or invalid token. The permission error names the attempted
  sources, each of them and all in the order of the attempts, separated by commas; the
  project error names the configured project (the placeholder \<^verbatim>\<open><missing-project-id>\<close> when
  none is configured); the third error says that the token is missing or invalid; and the
  three errors are pairwise different, whatever the sources and the project.
\<close>

theorem patchRecipeVisibility_chain:
  assumes rec: "\<forall>c\<in>set pre. recoverable (wc_commit c rid nv)"
  shows "(wc_commit c rid nv = Committed \<longrightarrow>
            patchRecipeVisibility env (pre @ c # post) rid nv st =
              (Inr (), st\<lparr>attempts := attempts st @ map (attemptOf rid nv) (pre @ [c]),
                          docs := applyPatch rid nv (docs st)\<rparr>))
    \<and> (wc_commit c rid nv = Rejected err \<and> classifyFailure err = Fatal \<longrightarrow>
            patchRecipeVisibility env (pre @ c # post) rid nv st =
              (Inl err, st\<lparr>attempts := attempts st @ map (attemptOf rid nv) (pre @ [c])\<rparr>)
          \<and> (rid = vrow_id row \<and> nv = nextVisibilityOf a v (vrow_visibility row) \<longrightarrow>
                writeRowsLoop env (pre @ c # post) a v (row # rows) updated st =
                  (Inl err, st\<lparr>attempts := attempts st @ map (attemptOf rid nv) (pre @ [c])\<rparr>)))
    \<and> patchRecipeVisibility env pre rid nv st =
          (Inl (if \<exists>c\<in>set pre. answerClass (wc_commit c rid nv) = Some PermissionDenied
                then permissionError (map wc_source pre)
                else if \<exists>c\<in>set pre. answerClass (wc_commit c rid nv) = Some HostMismatch
                then projectMismatchError env
                else invalidTokenError),
           st\<lparr>attempts := attempts st @ map (attemptOf rid nv) pre\<rparr>)
    \<and> errorNaming (joinWith '', '' (map wc_source pre)) (permissionError (map wc_source pre))
    \<and> (\<forall>c\<in>set pre. errorNaming (wc_source c) (permissionError (map wc_source pre)))
    \<and> (NEXT_PUBLIC_SANITY_PROJECT_ID env = Some projectId \<longrightarrow>
          errorNaming projectId (projectMismatchError env))
    \<and> (NEXT_PUBLIC_SANITY_PROJECT_ID env = None \<longrightarrow>
          errorNaming ''<missing-project-id>'' (projectMismatchError env))
    \<and> errorNaming ''missing or invalid Sanity token'' invalidTokenError
    \<and> distinct [permissionError (map wc_source pre), projectMismatchError env, invalidTokenError]"
proof (intro conjI impI)
  assume c: "wc_commit c rid nv = Committed"
  then have stop: "attemptedClients (pre @ c # post) rid nv = pre @ [c]"
    using attemptedClients_stop[OF rec] not_recoverable_committed by simp
  show "patchRecipeVisibility env (pre @ c # post) rid nv st =
      (Inr (), st\<lparr>attempts := attempts st @ map (attemptOf rid nv) (pre @ [c]),
                  docs := applyPatch rid nv (docs st)\<rparr>)"
    unfolding patch_effect patchOutcome_committed[OF rec c] stop by simp
next
  assume f: "wc_commit c rid nv = Rejected err \<and> classifyFailure err = Fatal"
  then have stop: "attemptedClients (pre @ c # post) rid nv = pre @ [c]"
    using attemptedClients_stop[OF rec] not_recoverable_fatal by simp
  from f have out: "patchOutcome env (pre @ c # post) rid nv = Inl err"
    using patchOutcome_fatal[OF rec] by simp
  show p: "patchRecipeVisibility env (pre @ c # post) rid nv st =
      (Inl err, st\<lparr>attempts := attempts st @ map (attemptOf rid nv) (pre @ [c])\<rparr>)"
    unfolding patch_effect out stop by simp
  assume r: "rid = vrow_id row \<and> nv = nextVisibilityOf a v (vrow_visibility row)"
  show "writeRowsLoop env (pre @ c # post) a v (row # rows) updated st =
      (Inl err, st\<lparr>attempts := attempts st @ map (attemptOf rid nv) (pre @ [c])\<rparr>)"
    using p r by (simp add: Let_def)
next
  show "patchRecipeVisibility env pre rid nv st =
          (Inl (if \<exists>c\<in>set pre. answerClass (wc_commit c rid nv) = Some PermissionDenied
                then permissionError (map wc_source pre)
                else if \<exists>c\<in>set pre. answerClass (wc_commit c rid nv) = Some HostMismatch
                then projectMismatchError env
                else invalidTokenError),
           st\<lparr>attempts := attempts st @ map (attemptOf rid nv) pre\<rparr>)"
    unfolding patch_effect patchOutcome_exhausted[OF rec] attemptedClients_all[OF rec] by simp
next
  show "errorNaming (joinWith '', '' (map wc_source pre)) (permissionError (map wc_source pre))"
    by (rule permissionError_names_all)
next
  show "\<forall>c\<in>set pre. errorNaming (wc_source c) (permissionError (map wc_source pre))"
    by (simp add: permissionError_names)
next
  assume "NEXT_PUBLIC_SANITY_PROJECT_ID env = Some projectId"
  then show "errorNaming projectId (projectMismatchError env)"
    by (rule projectMismatchError_names)
next
  assume "NEXT_PUBLIC_SANITY_PROJECT_ID env = None"
  then show "errorNaming ''<missing-project-id>'' (projectMismatchError env)"
    by (rule projectMismatchError_placeholder)
next
  show "errorNaming ''missing or invalid Sanity token'' invalidTokenError"
    by (rule invalidTokenError_names)
next
  show "distinct [permissionError (map wc_source pre), projectMismatchError env, invalidTokenError]"
    using exhausted_errors_distinct by simp
qed

theorem patchRecipeVisibility_chain_witness:
  "recoverable (wc_commit hostClient ''r5'' (nextVisibilityOf Public False (vrow_visibility riceRow)))
   \<and> recoverable (wc_commit permClient ''r5'' (nextVisibilityOf Public False (vrow_visibility riceRow)))
   \<and> wc_commit okClient ''r5'' (nextVisibilityOf Public False (vrow_visibility riceRow)) = Committed
   \<and> patchRecipeVisibility exampleEnv ([hostClient, permClient] @ okClient # [timeoutClient]) ''r5''
         (nextVisibilityOf Public False (vrow_visibility riceRow)) exampleStore
       = (Inr (),
          exampleStore\<lparr>attempts := attempts exampleStore
               @ map (attemptOf ''r5'' (nextVisibilityOf Public False (vrow_visibility riceRow)))
                   ([hostClient, permClient] @ [okClient]),
             docs := applyPatch ''r5'' (nextVisibilityOf Public False (vrow_visibility riceRow)) (docs exampleStore)\<rparr>)
   \<and> wc_commit timeoutClient ''r5'' (nextVisibilityOf Public False (vrow_visibility riceRow))
       = Rejected (ErrorObject ''Request timed out'')
   \<and> classifyFailure (ErrorObject ''Request timed out'') = Fatal
   \<and> patchRecipeVisibility exampleEnv ([hostClient, permClient] @ timeoutClient # [okClient]) ''r5''
         (nextVisibilityOf Public False (vrow_visibility riceRow)) exampleStore
       = (Inl (ErrorObject ''Request timed out''),
          exampleStore\<lparr>attempts := attempts exampleStore
               @ map (attemptOf ''r5'' (nextVisibilityOf Public False (vrow_visibility riceRow)))
                   ([hostClient, permClient] @ [timeoutClient])\<rparr>)
   \<and> writeRowsLoop exampleEnv ([hostClient, permClient] @ timeoutClient # [okClient]) Public False
         (riceRow # storeRows exampleStore) [] exampleStore
       = (Inl (ErrorObject ''Request timed out''),
          exampleStore\<lparr>attempts := attempts exampleStore
               @ map (attemptOf ''r5'' (nextVisibilityOf Public False (vrow_visibility riceRow)))
                   ([hostClient, permClient] @ [timeoutClient])\<rparr>)
   \<and> patchRecipeVisibility exampleEnv [hostClient, permClient] ''r5''
         (nextVisibilityOf Public False (vrow_visibility riceRow)) exampleStore
       = (Inl (ErrorObject ''Sanity token lacks update permission for recipe documents. Tried: token-0, token-1. Use a token with update grants (prefer SANITY_API_WRITE_TOKEN) and restart the dev server.''),
          exampleStore\<lparr>attempts := attempts exampleStore
               @ map (attemptOf ''r5'' (nextVisibilityOf Public False (vrow_visibility riceRow)))
                   [hostClient, permClient]\<rparr>)
   \<and> errorNaming ''token-0, token-1'' (permissionError [''token-0'', ''token-1''])
   \<and> errorNaming ''token-0'' (permissionError [''token-0'', ''token-1''])
   \<and> errorNaming ''token-1'' (permissionError [''token-0'', ''token-1''])
   \<and> patchRecipeVisibility exampleEnv [hostClient] ''r5''
         (nextVisibilityOf Public False (vrow_visibility riceRow)) exampleStore
       = (Inl (ErrorObject (''Sanity write token does not belong to project '' @ [CHR 0x22] @ ''kitchen''
                 @ [CHR 0x22] @ ''. Create a write token in that exact project and set SANITY_API_WRITE_TOKEN.'')),
          exampleStore\<lparr>attempts := attempts exampleStore
               @ map (attemptOf ''r5'' (nextVisibilityOf Public False (vrow_visibility riceRow)))
                   [hostClient]\<rparr>)
   \<and> NEXT_PUBLIC_SANITY_PROJECT_ID exampleEnv = Some ''kitchen''
   \<and> errorNaming ''kitchen'' (projectMismatchError exampleEnv)
   \<and> patchRecipeVisibility exampleEnv [] ''r5''
         (nextVisibilityOf Public False (vrow_visibility riceRow)) exampleStore
       = (Inl (ErrorObject ''Failed to update recipe visibility due to missing or invalid Sanity token.''),
          exampleStore\<lparr>attempts := attempts exampleStore
               @ map (attemptOf ''r5'' (nextVisibilityOf Public False (vrow_visibility riceRow))) []\<rparr>)
   \<and> errorNaming ''missing or invalid Sanity token'' invalidTokenError
   \<and> distinct [permissionError [''token-0'', ''token-1''], projectMismatchError exampleEnv, invalidTokenError]"
proof -
  let ?nv = "nextVisibilityOf Public False (vrow_visibility riceRow)"
  have h: "recoverable (wc_commit hostClient ''r5'' ?nv)" and p: "recoverable (wc_commit permClient ''r5'' ?nv)"
    by (simp_all add: chain_commits chain_answers)
  have rec2: "\<forall>c\<in>set [hostClient, permClient]. recoverable (wc_commit c ''r5'' ?nv)"
    and rec1: "\<forall>c\<in>set [hostClient]. recoverable (wc_commit c ''r5'' ?nv)"
    and rec0: "\<forall>c\<in>set []. recoverable (wc_commit c ''r5'' ?nv)"
    using h p by simp_all
  have ok: "wc_commit okClient ''r5'' ?nv = Committed"
    and bad: "wc_commit timeoutClient ''r5'' ?nv = Rejected (ErrorObject ''Request timed out'')
        \<and> classifyFailure (ErrorObject ''Request timed out'') = Fatal"
    by (simp_all add: chain_commits chain_answers)
  have row: "''r5'' = vrow_id riceRow \<and> ?nv = nextVisibilityOf Public False (vrow_visibility riceRow)"
    by (simp add: riceRow_def)
  have pid: "NEXT_PUBLIC_SANITY_PROJECT_ID exampleEnv = Some ''kitchen''"
    by (simp add: exampleEnv_def)
  have srcs: "map wc_source [hostClient, permClient] = [''token-0'', ''token-1'']"
    by (simp add: chain_commits)
  have joined: "joinWith '', '' [''token-0'', ''token-1''] = ''token-0, token-1''"
    by (simp add: joinWith_def)
  note committed = patchRecipeVisibility_chain[OF rec2,
      where c = okClient and post = "[timeoutClient]" and env = exampleEnv and st = exampleStore,
      THEN conjunct1, THEN mp, OF ok]
  note fatal = patchRecipeVisibility_chain[OF rec2,
      where c = timeoutClient and post = "[okClient]" and env = exampleEnv and st = exampleStore
        and err = "ErrorObject ''Request timed out''" and row = riceRow and a = Public and v = False
        and rows = "storeRows exampleStore" and updated = "[]",
      THEN conjunct2, THEN conjunct1, THEN mp, OF bad]
  note tail2 = patchRecipeVisibility_chain[OF rec2,
      where env = exampleEnv and st = exampleStore and projectId = "''kitchen''",
      THEN conjunct2, THEN conjunct2]
  note exhausted2 = tail2[THEN conjunct1]
  note exhausted1 = patchRecipeVisibility_chain[OF rec1,
      where env = exampleEnv and st = exampleStore, THEN conjunct2, THEN conjunct2, THEN conjunct1]
  note exhausted0 = patchRecipeVisibility_chain[OF rec0,
      where env = exampleEnv and st = exampleStore, THEN conjunct2, THEN conjunct2, THEN conjunct1]
  have e2: "patchRecipeVisibility exampleEnv [hostClient, permClient] ''r5'' ?nv exampleStore
       = (Inl (ErrorObject ''Sanity token lacks update permission for recipe documents. Tried: token-0, token-1. Use a token with update grants (prefer SANITY_API_WRITE_TOKEN) and restart the dev server.''),
          exampleStore\<lparr>attempts := attempts exampleStore @ map (attemptOf ''r5'' ?nv) [hostClient, permClient]\<rparr>)"
    unfolding exhausted2 by (simp add: chain_commits chain_answers permissionError_def joined)
  have n2: "errorNaming ''token-0, token-1'' (permissionError [''token-0'', ''token-1''])"
    using tail2[THEN conjunct2, THEN conjunct1] unfolding srcs joined .
  have n0: "errorNaming ''token-0'' (permissionError [''token-0'', ''token-1''])"
    and n1: "errorNaming ''token-1'' (permissionError [''token-0'', ''token-1''])"
    using tail2[THEN conjunct2, THEN conjunct2, THEN conjunct1] unfolding srcs
    by (simp_all add: chain_commits)
  have np: "errorNaming ''kitchen'' (projectMismatchError exampleEnv)"
    using tail2[THEN conjunct2, THEN conjunct2, THEN conjunct2, THEN conjunct1, THEN mp, OF pid] .
  have d: "distinct [permissionError [''token-0'', ''token-1''], projectMismatchError exampleEnv, invalidTokenError]"
    using tail2[THEN conjunct2, THEN conjunct2, THEN conjunct2, THEN conjunct2, THEN conjunct2,
        THEN conjunct2] unfolding srcs .
  have ni: "errorNaming ''missing or invalid Sanity token'' invalidTokenError"
    using tail2[THEN conjunct2, THEN conjunct2, THEN conjunct2, THEN conjunct2, THEN conjunct2,
        THEN conjunct1] .
  have e1: "patchRecipeVisibility exampleEnv [hostClient] ''r5'' ?nv exampleStore
       = (Inl (ErrorObject (''Sanity write token does not belong to project '' @ [CHR 0x22] @ ''kitchen''
                 @ [CHR 0x22] @ ''. Create a write token in that exact project and set SANITY_API_WRITE_TOKEN.'')),
          exampleStore\<lparr>attempts := attempts exampleStore @ map (attemptOf ''r5'' ?nv) [hostClient]\<rparr>)"
    unfolding exhausted1 by (simp add: chain_commits chain_answers projectMismatchError_def pid)
  have e0: "patchRecipeVisibility exampleEnv [] ''r5'' ?nv exampleStore
       = (Inl (ErrorObject ''Failed to update recipe visibility due to missing or invalid Sanity token.''),
          exampleStore\<lparr>attempts := attempts exampleStore @ map (attemptOf ''r5'' ?nv) []\<rparr>)"
    unfolding exhausted0 by (simp add: invalidTokenError_def)
  from h p ok committed bad fatal[THEN conjunct1] fatal[THEN conjunct2, THEN mp, OF row]
    e2 n2 n0 n1 e1 pid np e0 ni d
  show ?thesis by (intro conjI) (simp_all only:)
qed




text \<open>
  Claim C7. If the writes of the first rows succeed and the write of the next row fails,
  the propagation raises that row's error, the rows written before keep their new flags,
  every other document is as before (nothing is rolled back), and the store received no
  request for a later row.
\<close>

theorem setRecipesVisibility_partial_failure:
  assumes cfg: "assertWriteTokenConfigured env = None"
    and dist: "distinct (map doc_id (docs st))"
    and rows: "fetchVisibilityRows (docs st) (resolveRelatedRecipeIds (docs st) seedIds) = pre @ r # post"
    and ok: "\<forall>row\<in>set pre. patchOutcome env cl (vrow_id row) (nextVisibilityOf a v (vrow_visibility row)) = Inr ()"
    and fail: "patchOutcome env cl (vrow_id r) (nextVisibilityOf a v (vrow_visibility r)) = Inl e"
  shows "setRecipesVisibility env cl seedIds a v st =
      (Inl e,
       st\<lparr>attempts := attempts st @ concat (map (rowAttempts cl a v) (pre @ [r])),
          docs := map (\<lambda>d. if doc_id d \<in> vrow_id ` set pre then writtenDoc a v d else d) (docs st)\<rparr>)
    \<and> (\<forall>atm\<in>set (concat (map (rowAttempts cl a v) (pre @ [r]))). att_id atm \<notin> vrow_id ` set post)"
proof
  have dr: "distinct (map vrow_id (pre @ r # post))"
    using rows_distinct[OF dist, of "resolveRelatedRecipeIds (docs st) seedIds"] unfolding rows .
  then have dpre: "distinct (map vrow_id pre)" by simp
  have cor: "\<forall>row\<in>set pre. \<exists>d\<in>set (docs st). vrow_id row = doc_id d \<and> vrow_visibility row = doc_visibility d"
    using fetchVisibilityRows_docs[of "docs st" "resolveRelatedRecipeIds (docs st) seedIds"]
    unfolding rows by simp
  have "writeRowsLoop env cl a v (pre @ r # post) [] st =
      (Inl e,
       st\<lparr>attempts := attempts st @ concat (map (rowAttempts cl a v) (pre @ [r])),
          docs := map (\<lambda>d. if doc_id d \<in> vrow_id ` set pre then writtenDoc a v d else d) (docs st)\<rparr>)"
    unfolding writeRows_ok_prefix[OF ok] writeRows_fail_head[OF fail] fold_patch_map[OF dist dpre cor]
    by simp
  then show "setRecipesVisibility env cl seedIds a v st =
      (Inl e,
       st\<lparr>attempts := attempts st @ concat (map (rowAttempts cl a v) (pre @ [r])),
          docs := map (\<lambda>d. if doc_id d \<in> vrow_id ` set pre then writtenDoc a v d else d) (docs st)\<rparr>)"
    unfolding setRecipesVisibility_unfold[OF cfg] Let_def rows by simp
  show "\<forall>atm\<in>set (concat (map (rowAttempts cl a v) (pre @ [r]))). att_id atm \<notin> vrow_id ` set post"
  proof
    fix atm assume "atm \<in> set (concat (map (rowAttempts cl a v) (pre @ [r])))"
    then obtain row where "row \<in> set (pre @ [r])" "atm \<in> set (rowAttempts cl a v row)" by auto
    then have "att_id atm \<in> vrow_id ` set (pre @ [r])" using rowAttempts_id by force
    with dr show "att_id atm \<notin> vrow_id ` set post" by auto
  qed
qed

lemma denying_run:
  "assertWriteTokenConfigured exampleEnv = None"
  "fetchVisibilityRows (docs exampleStore) (resolveRelatedRecipeIds (docs exampleStore) [''r2'', ''r5''])
     = take 2 (storeRows exampleStore) @ (storeRows exampleStore ! 2) # drop 3 (storeRows exampleStore)"
  "take 2 (storeRows exampleStore) = [storeRows exampleStore ! 0, storeRows exampleStore ! 1]"
  "patchOutcome exampleEnv denyingClients (vrow_id (storeRows exampleStore ! 0))
     (nextVisibilityOf Public False (vrow_visibility (storeRows exampleStore ! 0))) = Inr ()"
  "patchOutcome exampleEnv denyingClients (vrow_id (storeRows exampleStore ! 1))
     (nextVisibilityOf Public False (vrow_visibility (storeRows exampleStore ! 1))) = Inr ()"
  "patchOutcome exampleEnv denyingClients (vrow_id (storeRows exampleStore ! 2))
     (nextVisibilityOf Public False (vrow_visibility (storeRows exampleStore ! 2)))
     = Inl (permissionError [''SANITY_API_WRITE_TOKEN'', ''SANITY_API_TOKEN''])"
  "map doc_visibility (docs (snd (setRecipesVisibility exampleEnv denyingClients [''r2'', ''r5''] Public False exampleStore)))
     = [Some \<lparr>vis_public = Some False, vis_enterprise = Some True\<rparr>,
        Some \<lparr>vis_public = Some False, vis_enterprise = Some False\<rparr>,
        None,
        Some \<lparr>vis_public = None, vis_enterprise = Some True\<rparr>,
        Some \<lparr>vis_public = Some True, vis_enterprise = Some False\<rparr>]"
  "map att_id (attempts (snd (setRecipesVisibility exampleEnv denyingClients [''r2'', ''r5''] Public False exampleStore)))
     = [''r1'', ''r2'', ''r3'', ''r3'']"
  by code_simp+

theorem setRecipesVisibility_partial_failure_witness:
  "assertWriteTokenConfigured exampleEnv = None
   \<and> distinct (map doc_id (docs exampleStore))
   \<and> fetchVisibilityRows (docs exampleStore) (resolveRelatedRecipeIds (docs exampleStore) [''r2'', ''r5''])
       = take 2 (storeRows exampleStore) @ (storeRows exampleStore ! 2) # drop 3 (storeRows exampleStore)
   \<and> patchOutcome exampleEnv denyingClients (vrow_id (storeRows exampleStore ! 0))
        (nextVisibilityOf Public False (vrow_visibility (storeRows exampleStore ! 0))) = Inr ()
   \<and> patchOutcome exampleEnv denyingClients (vrow_id (storeRows exampleStore ! 1))
        (nextVisibilityOf Public False (vrow_visibility (storeRows exampleStore ! 1))) = Inr ()
   \<and> patchOutcome exampleEnv denyingClients (vrow_id (storeRows exampleStore ! 2))
        (nextVisibilityOf Public False (vrow_visibility (storeRows exampleStore ! 2)))
       = Inl (permissionError [''SANITY_API_WRITE_TOKEN'', ''SANITY_API_TOKEN''])
   \<and> fst (setRecipesVisibility exampleEnv denyingClients [''r2'', ''r5''] Public False exampleStore)
       = Inl (permissionError [''SANITY_API_WRITE_TOKEN'', ''SANITY_API_TOKEN''])
   \<and> map doc_visibility (docs (snd (setRecipesVisibility exampleEnv denyingClients [''r2'', ''r5''] Public False exampleStore)))
       = [Some \<lparr>vis_public = Some False, vis_enterprise = Some True\<rparr>,
          Some \<lparr>vis_public = Some False, vis_enterprise = Some False\<rparr>,
          None,
          Some \<lparr>vis_public = None, vis_enterprise = Some True\<rparr>,
          Some \<lparr>vis_public = Some True, vis_enterprise = Some False\<rparr>]
   \<and> map att_id (attempts (snd (setRecipesVisibility exampleEnv denyingClients [''r2'', ''r5''] Public False exampleStore)))
       = [''r1'', ''r2'', ''r3'', ''r3'']"
proof -
  have ok: "\<forall>row\<in>set (take 2 (storeRows exampleStore)).
      patchOutcome exampleEnv denyingClients (vrow_id row) (nextVisibilityOf Public False (vrow_visibility row)) = Inr ()"
    unfolding denying_run(3) using denying_run(4,5) by simp
  note run = setRecipesVisibility_partial_failure[OF denying_run(1) exampleStore_ids denying_run(2) ok denying_run(6), THEN conjunct1]
  have "fst (setRecipesVisibility exampleEnv denyingClients [''r2'', ''r5''] Public False exampleStore)
       = Inl (permissionError [''SANITY_API_WRITE_TOKEN'', ''SANITY_API_TOKEN''])"
    unfolding run by simp
  with exampleStore_ids denying_run(1,2,4,5,6,7,8) show ?thesis by (intro conjI)
qed

text \<open>
  Claim C8. After a successful propagation, running it again with the same seeds, audience
  and value (the write clients answering a request as before) succeeds with the same result,
  sends the same requests again and leaves every document as the first run left it.
\<close>

theorem setRecipesVisibility_idempotent:
  assumes dist: "distinct (map doc_id (docs st))"
    and run: "setRecipesVisibility env cl seedIds a v st = (Inr res, st1)"
  shows "setRecipesVisibility env cl seedIds a v st1 =
     (Inr res, st1\<lparr>attempts := attempts st1 @ drop (length (attempts st)) (attempts st1)\<rparr>)"
proof -
  let ?related = "resolveRelatedRecipeIds (docs st) seedIds"
  let ?rows = "fetchVisibilityRows (docs st) ?related"
  let ?g = "\<lambda>d. if doc_id d \<in> set ?related then writtenDoc a v d else d"
  let ?h = "\<lambda>row. row\<lparr>vrow_visibility := Some (storedFlags (nextVisibilityOf a v (vrow_visibility row)))\<rparr>"
  from setRecipesVisibility_success[OF run] have cfg: "assertWriteTokenConfigured env = None"
    and ok: "\<forall>row\<in>set ?rows. patchOutcome env cl (vrow_id row) (nextVisibilityOf a v (vrow_visibility row)) = Inr ()"
    by simp_all
  from run[unfolded setRecipesVisibility_all_ok[OF cfg dist ok]]
  have res: "res = \<lparr>updatedIds = map vrow_id ?rows, relatedIds = ?related\<rparr>"
    and st1: "st1 = st\<lparr>attempts := attempts st @ concat (map (rowAttempts cl a v) ?rows),
                       docs := map ?g (docs st)\<rparr>"
    by simp_all
  have d1: "docs st1 = map ?g (docs st)" unfolding st1 by simp
  have new: "drop (length (attempts st)) (attempts st1) = concat (map (rowAttempts cl a v) ?rows)"
    unfolding st1 by simp
  have rel1: "resolveRelatedRecipeIds (docs st1) seedIds = ?related"
    unfolding d1 by (rule resolveRelated_written)
  have rows1: "fetchVisibilityRows (docs st1) ?related = map ?h ?rows"
    unfolding d1 by (rule fetchVisibilityRows_written)
  have dist1: "distinct (map doc_id (docs st1))"
    unfolding d1 doc_ids_written using dist .
  have ok1: "\<forall>row\<in>set (fetchVisibilityRows (docs st1) (resolveRelatedRecipeIds (docs st1) seedIds)).
      patchOutcome env cl (vrow_id row) (nextVisibilityOf a v (vrow_visibility row)) = Inr ()"
    unfolding rel1 rows1 using ok by (simp add: nextVisibilityOf_idem)
  have again: "map (\<lambda>d. if doc_id d \<in> set ?related then writtenDoc a v d else d) (docs st1) = docs st1"
    unfolding d1 map_map
    by (rule map_cong[OF refl]) (simp add: writtenDoc_idem writtenDoc_simps)
  have attempts1: "concat (map (rowAttempts cl a v) (map ?h ?rows)) = concat (map (rowAttempts cl a v) ?rows)"
    unfolding map_map comp_def rowAttempts_written ..
  show ?thesis
    unfolding setRecipesVisibility_all_ok[OF cfg dist1 ok1]
    unfolding rel1 rows1 again attempts1 new res
    by (simp add: comp_def)
qed

lemma fallback_run:
  "fst (setRecipesVisibility exampleEnv fallbackClients [''r4''] Enterprise False exampleStore)
     = Inr \<lparr>updatedIds = [''r1'', ''r2'', ''r3'', ''r4''], relatedIds = [''r4'', ''r3'', ''r1'', ''r2'']\<rparr>"
  "map doc_visibility (docs (snd (setRecipesVisibility exampleEnv fallbackClients [''r4''] Enterprise False exampleStore)))
     = [Some \<lparr>vis_public = Some True, vis_enterprise = Some False\<rparr>,
        Some \<lparr>vis_public = Some False, vis_enterprise = Some False\<rparr>,
        Some \<lparr>vis_public = Some False, vis_enterprise = Some False\<rparr>,
        Some \<lparr>vis_public = Some False, vis_enterprise = Some False\<rparr>,
        Some \<lparr>vis_public = Some True, vis_enterprise = Some False\<rparr>]"
  by code_simp+

theorem setRecipesVisibility_idempotent_witness:
  "distinct (map doc_id (docs exampleStore))
   \<and> fst (setRecipesVisibility exampleEnv fallbackClients [''r4''] Enterprise False exampleStore)
       = Inr \<lparr>updatedIds = [''r1'', ''r2'', ''r3'', ''r4''], relatedIds = [''r4'', ''r3'', ''r1'', ''r2'']\<rparr>
   \<and> map doc_visibility (docs (snd (setRecipesVisibility exampleEnv fallbackClients [''r4''] Enterprise False exampleStore)))
       = [Some \<lparr>vis_public = Some True, vis_enterprise = Some False\<rparr>,
          Some \<lparr>vis_public = Some False, vis_enterprise = Some False\<rparr>,
          Some \<lparr>vis_public = Some False, vis_enterprise = Some False\<rparr>,
          Some \<lparr>vis_public = Some False, vis_enterprise = Some False\<rparr>,
          Some \<lparr>vis_public = Some True, vis_enterprise = Some False\<rparr>]
   \<and> fst (setRecipesVisibility exampleEnv fallbackClients [''r4''] Enterprise False
            (snd (setRecipesVisibility exampleEnv fallbackClients [''r4''] Enterprise False exampleStore)))
       = Inr \<lparr>updatedIds = [''r1'', ''r2'', ''r3'', ''r4''], relatedIds = [''r4'', ''r3'', ''r1'', ''r2'']\<rparr>
   \<and> docs (snd (setRecipesVisibility exampleEnv fallbackClients [''r4''] Enterprise False
            (snd (setRecipesVisibility exampleEnv fallbackClients [''r4''] Enterprise False exampleStore))))
       = docs (snd (setRecipesVisibility exampleEnv fallbackClients [''r4''] Enterprise False exampleStore))"
proof -
  let ?run1 = "setRecipesVisibility exampleEnv fallbackClients [''r4''] Enterprise False exampleStore"
  let ?res = "\<lparr>updatedIds = [''r1'', ''r2'', ''r3'', ''r4''], relatedIds = [''r4'', ''r3'', ''r1'', ''r2'']\<rparr>"
  have run1: "?run1 = (Inr ?res, snd ?run1)"
    using fallback_run(1) by (simp add: prod_eq_iff)
  note run2 = setRecipesVisibility_idempotent[OF exampleStore_ids run1]
  have "fst (setRecipesVisibility exampleEnv fallbackClients [''r4''] Enterprise False (snd ?run1)) = Inr ?res"
    and "docs (snd (setRecipesVisibility exampleEnv fallbackClients [''r4''] Enterprise False (snd ?run1)))
       = docs (snd ?run1)"
    unfolding run2 by simp_all
  with exampleStore_ids fallback_run show ?thesis by (intro conjI)
qed

section \<open>Properties of the navigation resolution\<close>

lemma fold_max_ge: "(s::int) \<le> fold max xs s"
proof (induction xs arbitrary: s)
  case Nil
  show ?case by simp
next
  case (Cons x xs)
  have "s \<le> max x s" by simp
  also have "\<dots> \<le> fold max xs (max x s)" by (rule Cons.IH)
  finally show ?case by simp
qed

lemma fold_max_attained: "fold max xs (s::int) \<noteq> s \<Longrightarrow> fold max xs s \<in> set xs"
proof (induction xs arbitrary: s)
  case Nil
  then show ?case by simp
next
  case (Cons x xs)
  show ?case
  proof (cases "fold max xs (max x s) = max x s")
    case True
    from Cons.prems have "fold max xs (max x s) \<noteq> s" by simp
    with True have "max x s \<noteq> s" by simp
    then have "max x s = x" by (simp add: max_def split: if_splits)
    with True have "fold max (x # xs) s = x" by simp
    then show ?thesis by simp
  next
    case False
    from Cons.IH[OF False] show ?thesis by simp
  qed
qed

lemma find_max_some:
  assumes "fold max (map f xs) (s::int) > s"
  shows "\<exists>x. find (\<lambda>x. f x = fold max (map f xs) s) xs = Some x"
proof -
  from assms have "fold max (map f xs) s \<in> set (map f xs)" by (intro fold_max_attained) simp
  then have "\<exists>x\<in>set xs. f x = fold max (map f xs) s" by auto
  then show ?thesis by (cases "find (\<lambda>x. f x = fold max (map f xs) s) xs") (auto simp: find_None_iff)
qed

lemma bestTargetLoop_max:
  "bestTargetLoop labelNorm nrows (best, bestScore) =
     (let m = fold max (map (\<lambda>rn. scoreTitleMatch labelNorm (snd rn)) nrows) bestScore
      in if m > bestScore
         then (case find (\<lambda>rn. scoreTitleMatch labelNorm (snd rn) = m) nrows of
                 None \<Rightarrow> (best, bestScore)
               | Some rn \<Rightarrow> (Some (targetOf (fst rn) m), m))
         else (best, bestScore))"
proof (induction nrows arbitrary: best bestScore)
  case Nil
  show ?case by simp
next
  case (Cons rn nrows)
  obtain row n where rn: "rn = (row, n)" by (cases rn)
  let ?c = "scoreTitleMatch labelNorm n"
  let ?sc = "\<lambda>rn. scoreTitleMatch labelNorm (snd rn)"
  have ge: "\<And>s. fold max (map ?sc nrows) s \<ge> s" by (rule fold_max_ge)
  show ?case
  proof (cases "?c > bestScore")
    case True
    then have m: "max ?c bestScore = ?c" by simp
    show ?thesis
    proof (cases "fold max (map ?sc nrows) ?c > ?c")
      case gt: True
      from find_max_some[OF gt] obtain x where
        "find (\<lambda>rn. scoreTitleMatch labelNorm (snd rn) = fold max (map ?sc nrows) ?c) nrows = Some x"
        by blast
      with gt show ?thesis
        using True unfolding rn
        by (simp add: Cons.IH Let_def m targetOf_def)
    next
      case False
      with ge[of ?c] have eq: "fold max (map ?sc nrows) ?c = ?c" by simp
      show ?thesis
        using True unfolding rn
        by (simp add: Cons.IH Let_def m eq targetOf_def)
    qed
  next
    case False
    then have m: "max ?c bestScore = bestScore" by simp
    show ?thesis
    proof (cases "fold max (map ?sc nrows) bestScore > bestScore")
      case gt: True
      with False have "?c \<noteq> fold max (map ?sc nrows) bestScore" by simp
      then show ?thesis
        using False gt unfolding rn
        by (simp add: Cons.IH Let_def m)
    next
      case le: False
      then show ?thesis
        using False unfolding rn
        by (simp add: Cons.IH Let_def m)
    qed
  qed
qed

lemma fold_max_Max:
  "fold max (xs :: int list) s = Max (insert s (set xs))"
  using Max.set_eq_fold[of s xs] by simp

lemma find_map_pair:
  "find (\<lambda>rn. P (snd rn)) (map (\<lambda>row. (row, f row)) rows)
     = map_option (\<lambda>row. (row, f row)) (find (\<lambda>row. P (f row)) rows)"
  by (induction rows) auto

lemma assignProperty_other:
  "k \<noteq> ''__proto__'' \<Longrightarrow>
     map_of (rec_entries (assignProperty l v result)) k
       = (if k = l then Some v else map_of (rec_entries result) k)"
  by (auto simp: assignProperty_def update_conv')

lemma resolveLabels_map_of:
  "k \<noteq> ''__proto__'' \<Longrightarrow>
   map_of (rec_entries (resolveLabels nrows labels result)) k =
     (if k \<in> set labels
      then Some (let labelNorm = normalizeComparableText k
                 in if labelNorm = [] then None
                    else (case bestTargetLoop labelNorm nrows (None, 0) of
                            (best, bestScore) \<Rightarrow> if bestScore \<ge> 60 then best else None))
      else map_of (rec_entries result) k)"
proof (induction labels arbitrary: result k)
  case Nil
  show ?case by simp
next
  case (Cons l labels)
  show ?case
    using Cons.prems
    by (cases "bestTargetLoop (normalizeComparableText l) nrows (None, 0)")
       (simp add: Cons.IH Let_def assignProperty_other)
qed

lemma assignProperty_proto:
  "map_of (rec_entries result) ''__proto__'' = None \<Longrightarrow> rec_prototype result \<noteq> NullPrototype \<Longrightarrow>
     rec_entries (assignProperty ''__proto__'' v result) = rec_entries result"
  by (simp add: assignProperty_def)

lemma assignProperty_keeps:
  "l \<noteq> ''__proto__'' \<Longrightarrow>
     map_of (rec_entries (assignProperty l v result)) ''__proto__'' = map_of (rec_entries result) ''__proto__''
     \<and> rec_prototype (assignProperty l v result) = rec_prototype result"
  by (simp add: assignProperty_def update_conv')

lemma resolveLabels_proto:
  "map_of (rec_entries result) ''__proto__'' = None \<Longrightarrow>
   (''__proto__'' \<in> set labels \<longrightarrow> rec_prototype result \<noteq> NullPrototype) \<Longrightarrow> distinct labels \<Longrightarrow>
     map_of (rec_entries (resolveLabels nrows labels result)) ''__proto__'' = None"
proof (induction labels arbitrary: result)
  case Nil
  then show ?case by simp
next
  case (Cons l labels)
  have step: "map_of (rec_entries (resolveLabels nrows labels (assignProperty l v result))) ''__proto__'' = None" for v
  proof (cases "l = ''__proto__''")
    case True
    with Cons.prems have e: "rec_entries (assignProperty l v result) = rec_entries result"
      using assignProperty_proto by simp
    from True Cons.prems have "''__proto__'' \<notin> set labels" by simp
    with Cons.prems e show ?thesis by (intro Cons.IH) simp_all
  next
    case False
    from assignProperty_keeps[OF False] Cons.prems show ?thesis by (intro Cons.IH) simp_all
  qed
  show ?case
    by (cases "bestTargetLoop (normalizeComparableText l) nrows (None, 0)")
       (simp add: Let_def step)
qed


lemma navigation_outcome:
  "(let labelNorm = normalizeComparableText k
    in if labelNorm = [] then None
       else (case bestTargetLoop labelNorm
                    (map (\<lambda>row. (row, normalizeComparableText (trow_title row))) rows) (None, 0) of
               (best, bestScore) \<Rightarrow> if bestScore \<ge> 60 then best else None))
   = navigationTarget_spec k rows"
proof -
  let ?l = "normalizeComparableText k"
  let ?nrows = "map (\<lambda>row. (row, normalizeComparableText (trow_title row))) rows"
  have sc: "map (\<lambda>rn. scoreTitleMatch ?l (snd rn)) ?nrows = map (\<lambda>row. titleMatchScore k (trow_title row)) rows"
    by (simp add: titleMatchScore_def comp_def)
  have M: "fold max (map (\<lambda>rn. scoreTitleMatch ?l (snd rn)) ?nrows) 0 = bestMatchScore_spec k rows"
    unfolding sc fold_max_Max bestMatchScore_spec_def by simp
  have F: "find (\<lambda>rn. scoreTitleMatch ?l (snd rn) = bestMatchScore_spec k rows) ?nrows
      = map_option (\<lambda>row. (row, normalizeComparableText (trow_title row))) (bestMatch_spec k rows)"
    unfolding bestMatch_spec_def titleMatchScore_def
    by (rule find_map_pair)
  show ?thesis
  proof (cases "?l = []")
    case True
    then have "\<And>row. titleMatchScore k (trow_title row) = 0"
      by (simp add: titleMatchScore_def scoreTitleMatch_def)
    then have ins: "insert 0 ((\<lambda>row. titleMatchScore k (trow_title row)) ` set rows) = {0}"
      by auto
    have "bestMatchScore_spec k rows = 0"
      unfolding bestMatchScore_spec_def ins by simp
    with True show ?thesis by (simp add: navigationTarget_spec_def)
  next
    case False
    then show ?thesis
      unfolding bestTargetLoop_max Let_def M F navigationTarget_spec_def
      by (cases "bestMatch_spec k rows") (auto simp: targetOf_def)
  qed
qed

lemma trimmed_labels:
  "set (uniqueList (filterBoolean (map trim labels))) = {k. k \<noteq> [] \<and> (\<exists>l\<in>set labels. k = trim l)}"
  by (auto simp: uniqueList_props filterBoolean_def)

lemma findSubRecipeTargets_resolve:
  "findSubRecipeTargets ds labels audience includeAll =
     resolveLabels (map (\<lambda>row. (row, normalizeComparableText (trow_title row)))
                      (fetchTitleRows ds audience includeAll))
       (uniqueList (filterBoolean (map trim labels))) emptyRecord"
  by (cases "uniqueList (filterBoolean (map trim labels)) = []")
     (simp_all add: findSubRecipeTargets_def Let_def)

lemma findSubRecipeTargets_map_of:
  "k \<noteq> ''__proto__'' \<Longrightarrow>
   map_of (rec_entries (findSubRecipeTargets ds labels audience includeAll)) k
     = (if k \<noteq> [] \<and> (\<exists>l\<in>set labels. k = trim l)
        then Some (navigationTarget_spec k (fetchTitleRows ds audience includeAll)) else None)"
proof -
  assume k: "k \<noteq> ''__proto__''"
  let ?u = "uniqueList (filterBoolean (map trim labels))"
  let ?rows = "fetchTitleRows ds audience includeAll"
  have "map_of (rec_entries (findSubRecipeTargets ds labels audience includeAll)) k
      = (if k \<in> set ?u then Some (navigationTarget_spec k ?rows) else None)"
    unfolding findSubRecipeTargets_resolve resolveLabels_map_of[OF k] navigation_outcome
    by (simp add: emptyRecord_def)
  then show ?thesis unfolding trimmed_labels by simp
qed

text \<open>Under the key \<^verbatim>\<open>__proto__\<close> the record has no entry, whatever the labels.\<close>

lemma findSubRecipeTargets_proto:
  "map_of (rec_entries (findSubRecipeTargets ds labels audience includeAll)) ''__proto__'' = None"
  unfolding findSubRecipeTargets_resolve
  by (rule resolveLabels_proto) (simp_all add: emptyRecord_def uniqueList_props)

text \<open>
  Claim C9, amended. The record returned for a list of labels has, for each label that
  trimmed is neither empty nor \<^verbatim>\<open>__proto__\<close>, one entry under the trimmed label, and apart
  from the key \<^verbatim>\<open>__proto__\<close> no other: the entry is the unresolved marker when the
  best-match score of the trimmed label is below 60, else the first best-matching recipe,
  flagged direct exactly when that score is at least 72. A label with surrounding white
  space has no entry under its own spelling, and a blank label none at all (the
  counterexample below), where the claim as stated has an entry for each input label.
\<close>

theorem findSubRecipeTargets_entries:
  "(l \<in> set labels \<and> trim l \<noteq> [] \<and> trim l \<noteq> ''__proto__'' \<longrightarrow>
      map_of (rec_entries (findSubRecipeTargets ds labels audience includeAll)) (trim l)
        = Some (navigationTarget_spec (trim l) (fetchTitleRows ds audience includeAll)))
   \<and> fst ` set (rec_entries (findSubRecipeTargets ds labels audience includeAll)) - {''__proto__''}
        = {k. k \<noteq> [] \<and> (\<exists>l\<in>set labels. k = trim l)} - {''__proto__''}"
proof
  show "l \<in> set labels \<and> trim l \<noteq> [] \<and> trim l \<noteq> ''__proto__'' \<longrightarrow>
      map_of (rec_entries (findSubRecipeTargets ds labels audience includeAll)) (trim l)
        = Some (navigationTarget_spec (trim l) (fetchTitleRows ds audience includeAll))"
    using findSubRecipeTargets_map_of[of "trim l" ds labels audience includeAll] by auto
  have "k \<in> dom (map_of (rec_entries (findSubRecipeTargets ds labels audience includeAll)))
      \<longleftrightarrow> k \<noteq> [] \<and> (\<exists>l\<in>set labels. k = trim l)" if "k \<noteq> ''__proto__''" for k
    unfolding dom_def using findSubRecipeTargets_map_of[OF that, of ds labels audience includeAll]
    by simp
  then have "dom (map_of (rec_entries (findSubRecipeTargets ds labels audience includeAll))) - {''__proto__''}
      = {k. k \<noteq> [] \<and> (\<exists>l\<in>set labels. k = trim l)} - {''__proto__''}"
    by blast
  then show "fst ` set (rec_entries (findSubRecipeTargets ds labels audience includeAll)) - {''__proto__''}
        = {k. k \<noteq> [] \<and> (\<exists>l\<in>set labels. k = trim l)} - {''__proto__''}"
    by (simp add: dom_map_of_conv_image_fst)
qed


lemma navigation_rows:
  "fetchTitleRows exampleDocs AudienceAll True =
     [\<lparr>trow_id = ''r1'', trow_title = ''Burger'', trow_pluNumber = 0\<rparr>,
      \<lparr>trow_id = ''r2'', trow_title = ''Pickled Red Onion'', trow_pluNumber = 0\<rparr>,
      \<lparr>trow_id = ''r3'', trow_title = ''Burger Sauce (v2)'', trow_pluNumber = 0\<rparr>,
      \<lparr>trow_id = ''r4'', trow_title = ''Mayo'', trow_pluNumber = 0\<rparr>,
      \<lparr>trow_id = ''r5'', trow_title = ''Plain Rice'', trow_pluNumber = 0\<rparr>]"
  by (simp add: fetchTitleRows_def exampleDocs_def plainDoc_def)

lemma navigation_scores:
  "map (titleMatchScore ''Mayo'') [''Burger'', ''Pickled Red Onion'', ''Burger Sauce (v2)'', ''Mayo'', ''Plain Rice'']
     = [0, 0, 0, 120, 0]"
  "map (titleMatchScore ''sauce xx burger'') [''Burger'', ''Pickled Red Onion'', ''Burger Sauce (v2)'', ''Mayo'', ''Plain Rice'']
     = [0, 0, 68, 0, 0]"
  "map (titleMatchScore ''lemon curd'') [''Burger'', ''Pickled Red Onion'', ''Burger Sauce (v2)'', ''Mayo'', ''Plain Rice'']
     = [0, 0, 0, 0, 0]"
  "trim '' Mayo '' = ''Mayo''" "trim ''sauce xx burger'' = ''sauce xx burger''"
  "trim ''lemon curd'' = ''lemon curd''"
  by code_simp+

lemma navigation_examples:
  "bestMatchScore_spec ''Mayo'' (fetchTitleRows exampleDocs AudienceAll True) = 120"
  "bestMatchScore_spec ''sauce xx burger'' (fetchTitleRows exampleDocs AudienceAll True) = 68"
  "bestMatchScore_spec ''lemon curd'' (fetchTitleRows exampleDocs AudienceAll True) = 0"
  using navigation_scores(1,2,3) unfolding navigation_rows bestMatchScore_spec_def by simp_all

lemma navigation_targets:
  "navigationTarget_spec ''Mayo'' (fetchTitleRows exampleDocs AudienceAll True)
     = Some \<lparr>tgt_id = ''r4'', tgt_title = ''Mayo'', tgt_pluNumber = 0, tgt_directMatch = True\<rparr>"
  "navigationTarget_spec ''sauce xx burger'' (fetchTitleRows exampleDocs AudienceAll True)
     = Some \<lparr>tgt_id = ''r3'', tgt_title = ''Burger Sauce (v2)'', tgt_pluNumber = 0, tgt_directMatch = False\<rparr>"
  "navigationTarget_spec ''lemon curd'' (fetchTitleRows exampleDocs AudienceAll True) = None"
  unfolding navigationTarget_spec_def bestMatch_spec_def navigation_examples
  unfolding navigation_rows using navigation_scores(1,2,3) by simp_all

theorem findSubRecipeTargets_entries_witness:
  "'' Mayo '' \<in> set ['' Mayo '', ''sauce xx burger'', ''lemon curd''] \<and> trim '' Mayo '' = ''Mayo''
   \<and> bestMatchScore_spec ''Mayo'' (fetchTitleRows exampleDocs AudienceAll True) = 120
   \<and> map_of (rec_entries (findSubRecipeTargets exampleDocs ['' Mayo '', ''sauce xx burger'', ''lemon curd''] AudienceAll True)) ''Mayo''
       = Some (Some \<lparr>tgt_id = ''r4'', tgt_title = ''Mayo'', tgt_pluNumber = 0, tgt_directMatch = True\<rparr>)
   \<and> bestMatchScore_spec ''sauce xx burger'' (fetchTitleRows exampleDocs AudienceAll True) = 68
   \<and> map_of (rec_entries (findSubRecipeTargets exampleDocs ['' Mayo '', ''sauce xx burger'', ''lemon curd''] AudienceAll True)) ''sauce xx burger''
       = Some (Some \<lparr>tgt_id = ''r3'', tgt_title = ''Burger Sauce (v2)'', tgt_pluNumber = 0, tgt_directMatch = False\<rparr>)
   \<and> bestMatchScore_spec ''lemon curd'' (fetchTitleRows exampleDocs AudienceAll True) = 0
   \<and> map_of (rec_entries (findSubRecipeTargets exampleDocs ['' Mayo '', ''sauce xx burger'', ''lemon curd''] AudienceAll True)) ''lemon curd''
       = Some None"
proof -
  let ?labels = "['' Mayo '', ''sauce xx burger'', ''lemon curd'']"
  note e = findSubRecipeTargets_entries[where labels = ?labels and ds = exampleDocs
      and audience = AudienceAll and includeAll = True, THEN conjunct1, THEN mp]
  have a: "map_of (rec_entries (findSubRecipeTargets exampleDocs ?labels AudienceAll True)) ''Mayo''
       = Some (Some \<lparr>tgt_id = ''r4'', tgt_title = ''Mayo'', tgt_pluNumber = 0, tgt_directMatch = True\<rparr>)"
    using e[of "'' Mayo ''"] unfolding navigation_scores(4) navigation_targets by simp
  have b: "map_of (rec_entries (findSubRecipeTargets exampleDocs ?labels AudienceAll True)) ''sauce xx burger''
       = Some (Some \<lparr>tgt_id = ''r3'', tgt_title = ''Burger Sauce (v2)'', tgt_pluNumber = 0, tgt_directMatch = False\<rparr>)"
    using e[of "''sauce xx burger''"] unfolding navigation_scores(5) navigation_targets by simp
  have c: "map_of (rec_entries (findSubRecipeTargets exampleDocs ?labels AudienceAll True)) ''lemon curd'' = Some None"
    using e[of "''lemon curd''"] unfolding navigation_scores(6) navigation_targets by simp
  have m: "'' Mayo '' \<in> set ?labels" by simp
  from m navigation_scores(4) navigation_examples a b c show ?thesis by (intro conjI)
qed

theorem findSubRecipeTargets_untrimmed_counterexample:
  "'' Mayo '' \<in> set ['' Mayo '']
   \<and> map_of (rec_entries (findSubRecipeTargets exampleDocs ['' Mayo ''] AudienceAll True)) '' Mayo '' = None
   \<and> map_of (rec_entries (findSubRecipeTargets exampleDocs ['' Mayo ''] AudienceAll True)) ''Mayo''
       = Some (Some \<lparr>tgt_id = ''r4'', tgt_title = ''Mayo'', tgt_pluNumber = 0, tgt_directMatch = True\<rparr>)"
proof -
  have "map_of (rec_entries (findSubRecipeTargets exampleDocs ['' Mayo ''] AudienceAll True)) '' Mayo '' = None"
    by (subst findSubRecipeTargets_map_of) (simp_all add: navigation_scores(4))
  moreover have "map_of (rec_entries (findSubRecipeTargets exampleDocs ['' Mayo ''] AudienceAll True)) ''Mayo''
       = Some (Some \<lparr>tgt_id = ''r4'', tgt_title = ''Mayo'', tgt_pluNumber = 0, tgt_directMatch = True\<rparr>)"
    by (subst findSubRecipeTargets_map_of) (simp_all add: navigation_targets navigation_scores(4))
  ultimately show ?thesis by simp
qed

end
